theory Spec2Isabelle
  imports Main "HOL-Library.Word" "HOL-Library.Sublist"
begin

section \<open>Strings of the host language\<close>

text \<open>
  A string of the program is a sequence of 16-bit code units. String literals of the
  source are ASCII; \<open>utf16\<close> turns such a literal into its code units.
\<close>

type_synonym code_unit = "16 word"
type_synonym jstring = "code_unit list"

definition utf16 :: "string \<Rightarrow> jstring" where
  "utf16 s = map (\<lambda>c. of_char c) s"

text \<open>
  The class \<open>\s\<close> of a regular expression (white space and line terminators); it
  is also the set that \<open>String.prototype.trim\<close> removes.
\<close>

definition is_space :: "code_unit \<Rightarrow> bool" where
  "is_space c \<longleftrightarrow>
     c = 0x9 \<or> c = 0xA \<or> c = 0xB \<or> c = 0xC \<or> c = 0xD \<or> c = 0x20 \<or> c = 0xA0 \<or>
     c = 0x1680 \<or> (0x2000 \<le> c \<and> c \<le> 0x200A) \<or> c = 0x2028 \<or> c = 0x2029 \<or>
     c = 0x202F \<or> c = 0x205F \<or> c = 0x3000 \<or> c = 0xFEFF"

definition trim :: "jstring \<Rightarrow> jstring" where
  "trim s = rev (dropWhile is_space (rev (dropWhile is_space s)))"

section \<open>The regular expression of the response cleaner\<close>

text \<open>
  \<open>analyzeImage\<close> cleans the response with
  \<^verbatim>\<open>/```json\s*([\s\S]*?)\s*```/\<close> and \<open>responseText.match\<close>. The expression is
  a sequence of literals, greedy and lazy stars over a character class, and one capture
  group. \<open>rx_match\<close> is the backtracking matcher for such sequences at one position:
  a greedy star tries the longer match first, a lazy star the shorter one, and the
  brackets of the group record the input that is left where they are passed.
\<close>

datatype cls = WhiteSpace | AnyUnit

fun in_cls :: "cls \<Rightarrow> code_unit \<Rightarrow> bool" where
  "in_cls WhiteSpace c = is_space c"
| "in_cls AnyUnit c = True"

datatype item = Lit jstring | Greedy cls | Lazy cls | GroupOpen | GroupClose

fun rx_match :: "item list \<Rightarrow> jstring \<Rightarrow> jstring \<Rightarrow> jstring \<Rightarrow> (jstring \<times> jstring) option" where
  "rx_match [] s go gc = Some (go, gc)"
| "rx_match (Lit l # r) s go gc =
     (if prefix l s then rx_match r (drop (length l) s) go gc else None)"
| "rx_match (GroupOpen # r) s go gc = rx_match r s s gc"
| "rx_match (GroupClose # r) s go gc = rx_match r s go s"
| "rx_match (Greedy c # r) [] go gc = rx_match r [] go gc"
| "rx_match (Greedy c # r) (x # xs) go gc =
     (if in_cls c x
      then (case rx_match (Greedy c # r) xs go gc of
              Some m \<Rightarrow> Some m
            | None \<Rightarrow> rx_match r (x # xs) go gc)
      else rx_match r (x # xs) go gc)"
| "rx_match (Lazy c # r) [] go gc = rx_match r [] go gc"
| "rx_match (Lazy c # r) (x # xs) go gc =
     (case rx_match r (x # xs) go gc of
        Some m \<Rightarrow> Some m
      | None \<Rightarrow> if in_cls c x then rx_match (Lazy c # r) xs go gc else None)"

text \<open>
  \<open>match\<close> without the global flag: the first position, from the left, where the
  expression matches. The result is the text of group 1 (\<open>match[1]\<close>): the input
  between the two brackets.
\<close>

fun rx_search :: "item list \<Rightarrow> jstring \<Rightarrow> (jstring \<times> jstring) option" where
  "rx_search r [] = rx_match r [] [] []"
| "rx_search r (x # xs) =
     (case rx_match r (x # xs) (x # xs) (x # xs) of
        Some m \<Rightarrow> Some m
      | None \<Rightarrow> rx_search r xs)"

definition group1 :: "jstring \<times> jstring \<Rightarrow> jstring" where
  "group1 m = take (length (fst m) - length (snd m)) (fst m)"

definition fence_open :: jstring where
  "fence_open = utf16 ''```json''"

definition fence_close :: jstring where
  "fence_close = utf16 ''```''"

definition jsonRegex :: "item list" where
  "jsonRegex =
     [Lit fence_open, Greedy WhiteSpace, GroupOpen, Lazy AnyUnit, GroupClose,
      Greedy WhiteSpace, Lit fence_close]"

definition cleanText :: "jstring \<Rightarrow> jstring" where
  "cleanText responseText =
     (case rx_search jsonRegex responseText of
        Some m \<Rightarrow> group1 m
      | None \<Rightarrow> responseText)"

section \<open>JSON values and \<open>JSON.parse\<close>\<close>

text \<open>
  The values that \<open>JSON.parse\<close> builds. A number is kept as the decimal it was
  written as (sign, coefficient, exponent of ten); the program only ever asks of a
  number whether it is zero. An object is the list of its members in the order of the
  text; when a name is repeated the later member is the one the object has.
\<close>

datatype decimal = Decimal (negative: bool) (coefficient: nat) (exponent: int)

datatype jsval =
    JNull
  | JBool bool
  | JNum decimal
  | JStr jstring
  | JArr "jsval list"
  | JObj "(jstring \<times> jsval) list"

abbreviation cu :: "char \<Rightarrow> code_unit" where
  "cu c \<equiv> of_char c"

definition is_json_ws :: "code_unit \<Rightarrow> bool" where
  "is_json_ws c \<longleftrightarrow> c = 0x20 \<or> c = 0x9 \<or> c = 0xA \<or> c = 0xD"

definition skip_ws :: "jstring \<Rightarrow> jstring" where
  "skip_ws s = dropWhile is_json_ws s"

definition is_digit :: "code_unit \<Rightarrow> bool" where
  "is_digit c \<longleftrightarrow> 0x30 \<le> c \<and> c \<le> 0x39"

definition hex_value :: "code_unit \<Rightarrow> code_unit option" where
  "hex_value c =
     (if 0x30 \<le> c \<and> c \<le> 0x39 then Some (c - 0x30)
      else if 0x41 \<le> c \<and> c \<le> 0x46 then Some (c - 0x37)
      else if 0x61 \<le> c \<and> c \<le> 0x66 then Some (c - 0x57)
      else None)"

definition unescape :: "code_unit \<Rightarrow> code_unit option" where
  "unescape c =
     (if c = cu CHR ''\"'' then Some 0x22
      else if c = 0x5C then Some 0x5C
      else if c = cu CHR ''/'' then Some 0x2F
      else if c = cu CHR ''b'' then Some 0x8
      else if c = cu CHR ''f'' then Some 0xC
      else if c = cu CHR ''n'' then Some 0xA
      else if c = cu CHR ''r'' then Some 0xD
      else if c = cu CHR ''t'' then Some 0x9
      else None)"

text \<open>
  The characters of a string after its opening quote, up to the closing quote: escapes
  are decoded, a control character below \<open>0x20\<close> is a syntax error.
\<close>

fun parse_chars :: "jstring \<Rightarrow> (jstring \<times> jstring) option" where
  "parse_chars [] = None"
| "parse_chars (c # r) =
     (if c = 0x22 then Some ([], r)
      else if c = 0x5C then
        (case r of
           [] \<Rightarrow> None
         | e # r1 \<Rightarrow>
             if e = cu CHR ''u'' then
               (case r1 of
                  x3 # x2 # x1 # x0 # r2 \<Rightarrow>
                    (case (hex_value x3, hex_value x2, hex_value x1, hex_value x0) of
                       (Some h3, Some h2, Some h1, Some h0) \<Rightarrow>
                         map_option (\<lambda>(s, rest). ((h3 * 0x1000 + h2 * 0x100 + h1 * 0x10 + h0) # s, rest))
                           (parse_chars r2)
                     | _ \<Rightarrow> None)
                | _ \<Rightarrow> None)
             else
               (case unescape e of
                  None \<Rightarrow> None
                | Some u \<Rightarrow> map_option (\<lambda>(s, rest). (u # s, rest)) (parse_chars r1)))
      else if c < 0x20 then None
      else map_option (\<lambda>(s, rest). (c # s, rest)) (parse_chars r))"

definition digits_value :: "jstring \<Rightarrow> nat" where
  "digits_value ds = foldl (\<lambda>n d. 10 * n + unat (d - 0x30)) 0 ds"

text \<open>
  The integer part: a single \<open>0\<close>, or a digit from 1 to 9 and the digits after it.
\<close>

definition parse_int_part :: "jstring \<Rightarrow> (jstring \<times> jstring) option" where
  "parse_int_part s =
     (case s of
        [] \<Rightarrow> None
      | c # r \<Rightarrow>
          if c = 0x30 then Some ([c], r)
          else if is_digit c then Some (c # takeWhile is_digit r, dropWhile is_digit r)
          else None)"

definition parse_frac_part :: "jstring \<Rightarrow> (jstring \<times> jstring) option" where
  "parse_frac_part s =
     (case s of
        c # d # r \<Rightarrow>
          if c = cu CHR ''.'' then
            (if is_digit d then Some (d # takeWhile is_digit r, dropWhile is_digit r) else None)
          else Some ([], s)
      | _ \<Rightarrow> if s = [cu CHR ''.''] then None else Some ([], s))"

definition parse_exp_digits :: "bool \<Rightarrow> jstring \<Rightarrow> (int \<times> jstring) option" where
  "parse_exp_digits neg s =
     (case s of
        [] \<Rightarrow> None
      | d # r \<Rightarrow>
          if is_digit d
          then Some ((if neg then - int (digits_value (d # takeWhile is_digit r))
                      else int (digits_value (d # takeWhile is_digit r))),
                     dropWhile is_digit r)
          else None)"

definition parse_exp_part :: "jstring \<Rightarrow> (int \<times> jstring) option" where
  "parse_exp_part s =
     (case s of
        [] \<Rightarrow> Some (0, s)
      | c # r \<Rightarrow>
          if c = cu CHR ''e'' \<or> c = cu CHR ''E'' then
            (case r of
               [] \<Rightarrow> None
             | sg # r1 \<Rightarrow>
                 if sg = cu CHR ''-'' then parse_exp_digits True r1
                 else if sg = cu CHR ''+'' then parse_exp_digits False r1
                 else parse_exp_digits False r)
          else Some (0, s))"

definition parse_number :: "jstring \<Rightarrow> (decimal \<times> jstring) option" where
  "parse_number s =
     (let neg = (s \<noteq> [] \<and> hd s = cu CHR ''-'');
          s0 = (if neg then tl s else s)
      in case parse_int_part s0 of
           None \<Rightarrow> None
         | Some (ip, s1) \<Rightarrow>
             (case parse_frac_part s1 of
                None \<Rightarrow> None
              | Some (fp, s2) \<Rightarrow>
                  (case parse_exp_part s2 of
                     None \<Rightarrow> None
                   | Some (e, s3) \<Rightarrow>
                       Some (Decimal neg (digits_value (ip @ fp)) (e - int (length fp)), s3))))"

text \<open>
  Values, the elements of a non-empty array and the members of a non-empty object. The
  input of each function starts at the first character of what it reads. The length tests
  beside the commas and the colon make the recursion well founded; they never fail
  (\<open>parse_elements_eq\<close> and \<open>parse_members_eq\<close> below).
\<close>

function (sequential) parse_value :: "jstring \<Rightarrow> (jsval \<times> jstring) option"
  and parse_elements :: "jstring \<Rightarrow> (jsval list \<times> jstring) option"
  and parse_members :: "jstring \<Rightarrow> ((jstring \<times> jsval) list \<times> jstring) option"
where
  "parse_value [] = None"
| "parse_value (c # r) =
     (if c = cu CHR ''{'' then
        (case skip_ws r of
           [] \<Rightarrow> None
         | d # r1 \<Rightarrow>
             if d = cu CHR ''}'' then Some (JObj [], r1)
             else map_option (\<lambda>(kvs, rest). (JObj kvs, rest)) (parse_members (d # r1)))
      else if c = cu CHR ''['' then
        (case skip_ws r of
           [] \<Rightarrow> None
         | d # r1 \<Rightarrow>
             if d = cu CHR '']'' then Some (JArr [], r1)
             else map_option (\<lambda>(vs, rest). (JArr vs, rest)) (parse_elements (d # r1)))
      else if c = 0x22 then map_option (\<lambda>(s, rest). (JStr s, rest)) (parse_chars r)
      else if c = cu CHR ''-'' \<or> is_digit c then
        map_option (\<lambda>(n, rest). (JNum n, rest)) (parse_number (c # r))
      else if prefix (utf16 ''true'') (c # r) then Some (JBool True, drop 4 (c # r))
      else if prefix (utf16 ''false'') (c # r) then Some (JBool False, drop 5 (c # r))
      else if prefix (utf16 ''null'') (c # r) then Some (JNull, drop 4 (c # r))
      else None)"
| "parse_elements s =
     (case parse_value s of
        None \<Rightarrow> None
      | Some (v, r) \<Rightarrow>
          (case skip_ws r of
             [] \<Rightarrow> None
           | d # r1 \<Rightarrow>
               if d = cu CHR '']'' then Some ([v], r1)
               else if d = cu CHR '','' \<and> length r1 < length s then
                 map_option (\<lambda>(vs, rest). (v # vs, rest)) (parse_elements (skip_ws r1))
               else None))"
| "parse_members s =
     (case s of
        [] \<Rightarrow> None
      | q # r \<Rightarrow>
          if q = 0x22 then
            (case parse_chars r of
               None \<Rightarrow> None
             | Some (k, r1) \<Rightarrow>
                 (case skip_ws r1 of
                    [] \<Rightarrow> None
                  | col # r2 \<Rightarrow>
                      if col = cu CHR '':'' \<and> length r2 < length s then
                        (case parse_value (skip_ws r2) of
                           None \<Rightarrow> None
                         | Some (v, r3) \<Rightarrow>
                             (case skip_ws r3 of
                                [] \<Rightarrow> None
                              | d # r4 \<Rightarrow>
                                  if d = cu CHR ''}'' then Some ([(k, v)], r4)
                                  else if d = cu CHR '','' \<and> length r4 < length s then
                                    map_option (\<lambda>(kvs, rest). ((k, v) # kvs, rest))
                                      (parse_members (skip_ws r4))
                                  else None))
                      else None))
          else None)"
  by pat_completeness auto
termination
proof (relation "measure (\<lambda>x. case x of
        Inl s \<Rightarrow> 2 * length s
      | Inr (Inl s) \<Rightarrow> 2 * length s + 1
      | Inr (Inr s) \<Rightarrow> 2 * length s + 1)", goal_cases)
  case 1
  show ?case by simp
next
  case (2 c r d r1)
  then have "length (d # r1) \<le> length r"
    unfolding skip_ws_def by (metis length_dropWhile_le)
  then show ?case by simp
next
  case (3 c r d r1)
  then have "length (d # r1) \<le> length r"
    unfolding skip_ws_def by (metis length_dropWhile_le)
  then show ?case by simp
next
  case (4 s)
  show ?case by simp
next
  case (5 s x v r d r1)
  have "length (skip_ws r1) \<le> length r1"
    unfolding skip_ws_def by (rule length_dropWhile_le)
  with 5 show ?case by simp
next
  case (6 s q r x k r1 col r2)
  have "length (skip_ws r2) \<le> length r2"
    unfolding skip_ws_def by (rule length_dropWhile_le)
  with 6 show ?case by simp
next
  case (7 s q r x k r1 col r2 y v r3 d r4)
  have "length (skip_ws r4) \<le> length r4"
    unfolding skip_ws_def by (rule length_dropWhile_le)
  with 7 show ?case by simp
qed

text \<open>
  \<open>JSON.parse\<close>: \<open>None\<close> is the SyntaxError it throws.
\<close>

definition JSON_parse :: "jstring \<Rightarrow> jsval option" where
  "JSON_parse t =
     (case parse_value (skip_ws t) of
        None \<Rightarrow> None
      | Some (v, r) \<Rightarrow> if skip_ws r = [] then Some v else None)"

section \<open>Reading the decoded value\<close>

text \<open>
  Whether a number is zero as a double: the decimal \<open>m * 10^e\<close> rounds (to nearest,
  ties to even) to zero exactly when it is at most \<open>2^-1075\<close>, half of the
  smallest positive double.
\<close>

definition double_is_zero :: "decimal \<Rightarrow> bool" where
  "double_is_zero d \<longleftrightarrow>
     coefficient d = 0 \<or>
     (exponent d < 0 \<and> coefficient d * 2 ^ 1075 \<le> 10 ^ nat (- exponent d))"

text \<open>
  The result of reading a property is \<open>None\<close> for \<open>undefined\<close>. \<open>truthy\<close> is
  the conversion to a boolean that \<open>!\<close> applies.
\<close>

fun truthy :: "jsval option \<Rightarrow> bool" where
  "truthy None = False"
| "truthy (Some JNull) = False"
| "truthy (Some (JBool b)) = b"
| "truthy (Some (JNum d)) = (\<not> double_is_zero d)"
| "truthy (Some (JStr s)) = (s \<noteq> [])"
| "truthy (Some (JArr vs)) = True"
| "truthy (Some (JObj kvs)) = True"

fun isArray :: "jsval option \<Rightarrow> bool" where
  "isArray (Some (JArr vs)) = True"
| "isArray v = False"

text \<open>
  What a program can throw: an instance of \<open>Error\<close> (of the class itself, of
  \<open>SyntaxError\<close>, of \<open>TypeError\<close>, or of another subclass such as
  \<open>DOMException\<close>) with its message, or a value that is no \<open>Error\<close>.
\<close>

datatype error_class = ErrorClass | SyntaxErrorClass | TypeErrorClass | OtherErrorClass

datatype thrown = ErrorObject error_class jstring | NonError

text \<open>
  \<open>result.name\<close> for a name that no built-in prototype defines
  (\<open>description\<close> and \<open>keywords\<close> are such names): reading a property of
  \<open>null\<close> throws a TypeError (the message is the one of Chrome, the browser of
  \<open>window.ai\<close>); an object gives its own member; every other value gives
  \<open>undefined\<close>.
\<close>

definition null_read_message :: "jstring \<Rightarrow> jstring" where
  "null_read_message k =
     utf16 ''Cannot read properties of null (reading '' @ [0x27] @ k @ [0x27] @ utf16 '')''"

fun get_prop :: "jsval \<Rightarrow> jstring \<Rightarrow> thrown + jsval option" where
  "get_prop JNull k = Inl (ErrorObject TypeErrorClass (null_read_message k))"
| "get_prop (JObj kvs) k = Inr (map_of (rev kvs) k)"
| "get_prop v k = Inr None"

section \<open>The interpreter: \<open>analyzeImage\<close>\<close>

datatype ProcessingStatus = Idle | Processing | Success | Error

text \<open>
  An utterance handed to the speech synthesis: text and language, at rate 1.0 and
  pitch 1.0.
\<close>

record utterance =
  utterance_text :: jstring
  lang :: jstring
  rate :: nat
  pitch :: nat

text \<open>
  The calls a handler makes on its environment, in the order it makes them: the console
  (with the label and the error it prints), the timer, the object URLs, the speech
  synthesis, and the state setters of the component.
\<close>

datatype effect =
    ConsoleWarn jstring
  | ConsoleError "jstring option" thrown
  | SetTimeout nat
  | RevokeObjectURL jstring
  | SpeechCancel
  | SpeechSpeak utterance
  | SetImagePreviewUrl "jstring option"
  | SetStatus ProcessingStatus
  | SetResult "jsval option"
  | SetError "jstring option"
  | SetIsCameraOpen bool

text \<open>
  \<open>window.ai\<close>: what \<open>canCreateTextSession()\<close> and \<open>prompt(text)\<close> settle
  with, a value or a rejection.
\<close>

record ai_capability =
  canCreateTextSession :: "thrown + jstring"
  ai_prompt :: "jstring \<Rightarrow> thrown + jstring"

definition mock_result :: jsval where
  "mock_result =
     JObj
      [(utf16 ''description'',
        JStr (utf16 ''A cute, fluffy Corgi puppy is sitting on a vibrant green grass field.'')),
       (utf16 ''keywords'',
        JArr [JStr (utf16 ''corgi''), JStr (utf16 ''puppy''), JStr (utf16 ''grass''),
              JStr (utf16 ''dog''), JStr (utf16 ''cute'')]),
       (utf16 ''phonetics'',
        JObj [(utf16 ''corgi'', JStr (utf16 ''kor-gee'')),
              (utf16 ''puppy'', JStr (utf16 ''puh-pee'')),
              (utf16 ''grass'', JStr (utf16 ''gras'')),
              (utf16 ''dog'', JStr (utf16 ''dog'')),
              (utf16 ''cute'', JStr (utf16 ''kyoot''))])]"

definition mock_advisory :: jstring where
  "mock_advisory = utf16 ''Built-in AI not found. Returning a mock response for development.''"

text \<open>
  \<open>getMockAIResponse\<close>: warns on the console, then resolves with the fixed result
  from a timer of 1200 milliseconds.
\<close>

definition getMockAIResponse :: "(thrown + jsval) \<times> effect list" where
  "getMockAIResponse = (Inr mock_result, [ConsoleWarn mock_advisory, SetTimeout 1200])"

definition prompt_lines :: "string list" where
  "prompt_lines =
     [''You are a language learning assistant. Your task is to analyze an image and provide educational content for an English language learner.'',
      [],
      ''Analyze the image and respond strictly with a JSON object that has three keys:'',
      ''1. \"description\": A short, simple, descriptive sentence about the main subject of the image.'',
      ''2. \"keywords\": An array of 3-5 strings, where each string is a key noun or object visible in the image. The words should be in lowercase.'',
      ''3. \"phonetics\": A JSON object where keys are the words from the \"keywords\" array and values are their simple, easy-to-read phonetic spellings (e.g., \"hello\" -> \"heh-loh\").'',
      [],
      ''Example response:'',
      ''{'',
      ''  \"description\": \"A fluffy white cat is sleeping on a blue sofa.\",'',
      ''  \"keywords\": [\"cat\", \"sofa\", \"sleeping\", \"white\", \"fluffy\"],'',
      ''  \"phonetics\": {'',
      ''    \"cat\": \"kat\",'',
      ''    \"sofa\": \"so-fa\",'',
      ''    \"sleeping\": \"sleep-ing\",'',
      ''    \"white\": \"wite\",'',
      ''    \"fluffy\": \"fluh-fee\"'',
      ''  }'',
      ''}'',
      [],
      ''Do not include any text or formatting outside of the JSON object.'']"

text \<open>
  The template literal \<open>prompt\<close>: a line break, then the lines above, each with its
  line break.
\<close>

definition prompt :: jstring where
  "prompt = utf16 (CHR ''\<newline>'' # concat (map (\<lambda>l. l @ ''\<newline>'') prompt_lines))"

definition fullPrompt :: "jstring \<Rightarrow> jstring" where
  "fullPrompt base64ImageData =
     prompt @ utf16 ''\<newline>\<newline>IMAGE_BASE64:'' @ base64ImageData"

definition invalid_format_message :: jstring where
  "invalid_format_message = utf16 ''AI returned an invalid response format.''"

definition not_understood_message :: jstring where
  "not_understood_message =
     utf16 ''The AI returned a response that we couldn't understand. Please try again.''"

definition analyze_error_label :: jstring where
  "analyze_error_label = utf16 ''Error analyzing image with Chrome AI:''"

text \<open>
  The SyntaxError of \<open>JSON.parse\<close>. Its message is the engine's own; the program
  never reads it, and it is left empty here.
\<close>

definition JSON_SyntaxError :: thrown where
  "JSON_SyntaxError = ErrorObject SyntaxErrorClass []"

text \<open>The basic validation of the decoded value, and its return.\<close>

definition validate :: "jsval \<Rightarrow> thrown + jsval" where
  "validate result =
     (case get_prop result (utf16 ''description'') of
        Inl e \<Rightarrow> Inl e
      | Inr d \<Rightarrow>
          if \<not> truthy d then Inl (ErrorObject ErrorClass invalid_format_message)
          else
            (case get_prop result (utf16 ''keywords'') of
               Inl e \<Rightarrow> Inl e
             | Inr k \<Rightarrow>
                 if \<not> isArray k then Inl (ErrorObject ErrorClass invalid_format_message)
                 else Inr result))"

text \<open>The body of the \<open>try\<close> block.\<close>

definition try_block :: "ai_capability \<Rightarrow> jstring \<Rightarrow> thrown + jsval" where
  "try_block cap base64ImageData =
     (case ai_prompt cap (fullPrompt base64ImageData) of
        Inl e \<Rightarrow> Inl e
      | Inr responseText \<Rightarrow>
          (case JSON_parse (cleanText responseText) of
             None \<Rightarrow> Inl JSON_SyntaxError
           | Some result \<Rightarrow> validate result))"

text \<open>The \<open>catch\<close> block: what it throws for what it caught.\<close>

fun catch_block :: "thrown \<Rightarrow> thrown" where
  "catch_block (ErrorObject SyntaxErrorClass m) = ErrorObject ErrorClass not_understood_message"
| "catch_block e = e"

text \<open>
  \<open>analyzeImage\<close>, given \<open>window.ai\<close> (\<open>None\<close> when it is not defined): the
  value the promise settles with, and the calls made on the way.
\<close>

definition analyzeImage :: "ai_capability option \<Rightarrow> jstring \<Rightarrow> (thrown + jsval) \<times> effect list" where
  "analyzeImage ai base64ImageData =
     (case ai of
        None \<Rightarrow> getMockAIResponse
      | Some cap \<Rightarrow>
          (case canCreateTextSession cap of
             Inl e \<Rightarrow> (Inl e, [])
           | Inr available \<Rightarrow>
               if available = utf16 ''no'' then getMockAIResponse
               else
                 (case try_block cap base64ImageData of
                    Inr result \<Rightarrow> (Inr result, [])
                  | Inl e \<Rightarrow> (Inl (catch_block e), [ConsoleError (Some analyze_error_label) e]))))"

section \<open>The analysis state machine: \<open>ImageAnalyzer\<close>\<close>

text \<open>
  The browser the components run in: \<open>window.ai\<close>, whether
  \<open>window.speechSynthesis\<close> and \<open>navigator.mediaDevices.getUserMedia\<close> exist, and
  whether the user agent is a mobile one.
\<close>

record platform =
  window_ai :: "ai_capability option"
  speechSynthesis :: bool
  mediaDevices :: bool
  isMobile :: bool

text \<open>
  The state of the component, with the calls made so far (\<open>calls\<close>) and the payloads
  of the \<open>processAnalysis\<close> calls that wait for their interpretation
  (\<open>pending\<close>). A \<open>null\<close> state is \<open>None\<close>.
\<close>

record world =
  imagePreviewUrl :: "jstring option"
  status :: ProcessingStatus
  result :: "jsval option"
  error :: "jstring option"
  isCameraOpen :: bool
  calls :: "effect list"
  pending :: "jstring list"

definition call :: "effect \<Rightarrow> world \<Rightarrow> world" where
  "call e w = w\<lparr>calls := calls w @ [e]\<rparr>"

definition setImagePreviewUrl :: "jstring option \<Rightarrow> world \<Rightarrow> world" where
  "setImagePreviewUrl v w = call (SetImagePreviewUrl v) (w\<lparr>imagePreviewUrl := v\<rparr>)"

definition setStatus :: "ProcessingStatus \<Rightarrow> world \<Rightarrow> world" where
  "setStatus v w = call (SetStatus v) (w\<lparr>status := v\<rparr>)"

definition setResult :: "jsval option \<Rightarrow> world \<Rightarrow> world" where
  "setResult v w = call (SetResult v) (w\<lparr>result := v\<rparr>)"

definition setError :: "jstring option \<Rightarrow> world \<Rightarrow> world" where
  "setError v w = call (SetError v) (w\<lparr>error := v\<rparr>)"

definition setIsCameraOpen :: "bool \<Rightarrow> world \<Rightarrow> world" where
  "setIsCameraOpen v w = call (SetIsCameraOpen v) (w\<lparr>isCameraOpen := v\<rparr>)"

text \<open>
  Calling \<open>cancel\<close> on an undefined \<open>window.speechSynthesis\<close> throws this
  TypeError.
\<close>

definition speech_TypeError :: thrown where
  "speech_TypeError =
     ErrorObject TypeErrorClass
       (utf16 ''Cannot read properties of undefined (reading '' @ [0x27] @ utf16 ''cancel'' @
        [0x27] @ utf16 '')'')"

text \<open>
  \<open>resetState\<close>: the exception it ends with, if any, and the state it leaves.
\<close>

definition resetState :: "platform \<Rightarrow> bool \<Rightarrow> world \<Rightarrow> thrown option \<times> world" where
  "resetState p fullReset w =
     (let w1 = (case imagePreviewUrl w of
                  None \<Rightarrow> w
                | Some u \<Rightarrow>
                    if fullReset \<and> u \<noteq> [] \<and> prefix (utf16 ''blob:'') u
                    then call (RevokeObjectURL u) w
                    else w);
          w2 = (if fullReset then setImagePreviewUrl None w1 else w1);
          w3 = setStatus Idle w2;
          w4 = setResult None w3;
          w5 = setError None w4
      in if speechSynthesis p then (None, call SpeechCancel w5)
         else (Some speech_TypeError, w5))"

text \<open>
  \<open>processAnalysis\<close> up to its \<open>await\<close>. An exception of \<open>resetState\<close> ends
  the call there: no interpretation is started. (The callback is memoised, so the
  \<open>resetState\<close> it calls is the one of the first render; called with \<open>false\<close>
  it does not read the preview reference, and the state setters are the same in every
  render.)
\<close>

definition processAnalysis_start ::
  "platform \<Rightarrow> jstring \<Rightarrow> jstring \<Rightarrow> world \<Rightarrow> thrown option \<times> world" where
  "processAnalysis_start p base64Data previewUrl w =
     (case resetState p False w of
        (Some e, w1) \<Rightarrow> (Some e, w1)
      | (None, w1) \<Rightarrow>
          (None,
           (setStatus Processing (setImagePreviewUrl (Some previewUrl) w1))
             \<lparr>pending := pending w1 @ [base64Data]\<rparr>))"

definition unknown_error_message :: jstring where
  "unknown_error_message = utf16 ''An unknown error occurred.''"

fun errorMessage :: "thrown \<Rightarrow> jstring" where
  "errorMessage (ErrorObject c m) = m"
| "errorMessage NonError = unknown_error_message"

text \<open>
  \<open>processAnalysis\<close> after its \<open>await\<close>, for what \<open>analyzeImage\<close> settled with.
\<close>

fun processAnalysis_settle :: "thrown + jsval \<Rightarrow> world \<Rightarrow> world" where
  "processAnalysis_settle (Inr analysisResult) w =
     setStatus Success (setResult (Some analysisResult) w)"
| "processAnalysis_settle (Inl err) w =
     setStatus Error (setError (Some (errorMessage err)) (call (ConsoleError None err) w))"

section \<open>The speech announcer: \<open>speak\<close>\<close>

definition speech_advisory :: jstring where
  "speech_advisory = utf16 ''Browser does not support the Web Speech API.''"

text \<open>
  \<open>speak(text, lang)\<close>; the language defaults to \<open>en-US\<close> at the call sites.
  It returns in every browser: the first component of the result is always \<open>None\<close>.
\<close>

definition speak :: "platform \<Rightarrow> jstring \<Rightarrow> jstring \<Rightarrow> world \<Rightarrow> thrown option \<times> world" where
  "speak p txt lng w =
     (if \<not> speechSynthesis p then (None, call (ConsoleWarn speech_advisory) w)
      else (None,
            call (SpeechSpeak \<lparr>utterance_text = txt, lang = lng, rate = 1, pitch = 1\<rparr>)
              (call SpeechCancel w)))"

section \<open>The capture view: \<open>CameraCapture\<close>\<close>

text \<open>
  A media stream is the list of its tracks. The state of the view: the \<open>isOpen\<close>
  property, \<open>streamRef.current\<close>, the source of the video element, the error and
  loading states, the number of \<open>getUserMedia\<close> calls that have not settled, and the
  tracks stopped so far.
\<close>

type_synonym track = nat
type_synonym stream = "track list"

record camera =
  isOpen :: bool
  streamRef :: "stream option"
  srcObject :: "stream option"
  cam_error :: "jstring option"
  isLoading :: bool
  acquiring :: nat
  stopped :: "track list"

datatype media_failure = NotAllowedError | NotFoundError | OtherDOMException | NotDOMException

definition stopCamera :: "camera \<Rightarrow> camera" where
  "stopCamera c =
     (case streamRef c of
        None \<Rightarrow> c
      | Some s \<Rightarrow> c\<lparr>stopped := stopped c @ s, streamRef := None\<rparr>)"

definition camera_message :: "media_failure \<Rightarrow> jstring" where
  "camera_message f =
     (case f of
        NotAllowedError \<Rightarrow>
          utf16 ''Camera access was denied. Please grant permission in your browser settings to use this feature.''
      | NotFoundError \<Rightarrow>
          utf16 ''No camera was found. Please make sure a webcam is connected.''
      | _ \<Rightarrow>
          utf16 ''Could not access the camera. Please ensure you have a webcam connected and have granted permission in your browser.'')"

text \<open>
  \<open>startCamera\<close> up to its \<open>await\<close>; without \<open>getUserMedia\<close> it throws a plain
  Error, which its own \<open>catch\<close> turns into the general message.
\<close>

definition startCamera :: "platform \<Rightarrow> camera \<Rightarrow> camera" where
  "startCamera p c =
     (let c1 = c\<lparr>isLoading := True, cam_error := None\<rparr>
      in if mediaDevices p then c1\<lparr>acquiring := acquiring c1 + 1\<rparr>
         else c1\<lparr>cam_error := Some (camera_message NotDOMException), isLoading := False\<rparr>)"

text \<open>
  \<open>startCamera\<close> after its \<open>await\<close>. The video element exists while the view is
  open.
\<close>

definition stream_resolved :: "stream \<Rightarrow> camera \<Rightarrow> camera" where
  "stream_resolved s c =
     (let c1 = c\<lparr>streamRef := Some s, acquiring := acquiring c - 1\<rparr>
      in if isOpen c then c1\<lparr>srcObject := Some s\<rparr> else c1)"

definition stream_rejected :: "media_failure \<Rightarrow> camera \<Rightarrow> camera" where
  "stream_rejected f c =
     c\<lparr>cam_error := Some (camera_message f), isLoading := False, acquiring := acquiring c - 1\<rparr>"

text \<open>
  The effect on \<open>isOpen\<close>: when the property changes, the component renders again,
  which removes the video element (closing) or creates a new one (opening), so that no
  source is attached to it; then the clean-up of the previous effect runs, then the effect
  itself.
\<close>

definition camera_effect :: "platform \<Rightarrow> camera \<Rightarrow> camera" where
  "camera_effect p c = (if isOpen c then startCamera p c else stopCamera c)"

definition set_isOpen :: "platform \<Rightarrow> bool \<Rightarrow> camera \<Rightarrow> camera" where
  "set_isOpen p b c =
     (if b = isOpen c then c
      else camera_effect p ((stopCamera (c\<lparr>srcObject := None\<rparr>))\<lparr>isOpen := b\<rparr>))"

section \<open>The application as a whole\<close>

record app =
  analyzer :: world
  capture :: camera

definition init_world :: world where
  "init_world =
     \<lparr>imagePreviewUrl = None, status = Idle, result = None, error = None,
      isCameraOpen = False, calls = [], pending = []\<rparr>"

definition init_camera :: camera where
  "init_camera =
     \<lparr>isOpen = False, streamRef = None, srcObject = None, cam_error = None,
      isLoading = True, acquiring = 0, stopped = []\<rparr>"

definition init_app :: app where
  "init_app = \<lparr>analyzer = init_world, capture = init_camera\<rparr>"

text \<open>
  \<open>imageDataUrl.split(',')[1]\<close>: the text between the first comma and the next one.
  Without a comma it is \<open>undefined\<close>, which the template of the prompt prints as
  that word.
\<close>

definition base64_of_dataUrl :: "jstring \<Rightarrow> jstring" where
  "base64_of_dataUrl u =
     (if cu CHR '','' \<in> set u
      then takeWhile (\<lambda>c. c \<noteq> cu CHR '','') (tl (dropWhile (\<lambda>c. c \<noteq> cu CHR '','') u))
      else utf16 ''undefined'')"

text \<open>
  What happens to the application, one event at a time:
  \<^item> \<open>Submit\<close>: \<open>processAnalysis\<close> is called (a chosen file has been read);
  \<^item> \<open>Settle\<close>: the interpretation of a pending call settles, and the call goes on
    (the calls that the interpretation made are entered in \<open>calls\<close> at this point);
  \<^item> \<open>ResetButton\<close>: one of the two buttons that call \<open>resetState(true)\<close>, shown
    with the error and with the result;
  \<^item> \<open>CameraButton\<close>: one of the camera buttons, shown when idle;
  \<^item> \<open>CloseCamera\<close>: the close button of the capture view;
  \<^item> \<open>StreamResolved\<close>, \<open>StreamRejected\<close>: a \<open>getUserMedia\<close> call settles;
  \<^item> \<open>MetadataLoaded\<close>: the video element has its metadata;
  \<^item> \<open>Snap\<close>: the capture button, with the data URL of the frame.
  The result is \<open>None\<close> for an event that cannot happen in the state.
\<close>

datatype event =
    Submit jstring jstring
  | Settle jstring
  | ResetButton
  | CameraButton
  | CloseCamera
  | StreamResolved stream
  | StreamRejected media_failure
  | MetadataLoaded
  | Snap jstring

definition render_camera :: "platform \<Rightarrow> app \<Rightarrow> app" where
  "render_camera p a = a\<lparr>capture := set_isOpen p (isCameraOpen (analyzer a)) (capture a)\<rparr>"

fun step :: "platform \<Rightarrow> event \<Rightarrow> app \<Rightarrow> app option" where
  "step p (Submit base64Data previewUrl) a =
     Some (a\<lparr>analyzer := snd (processAnalysis_start p base64Data previewUrl (analyzer a))\<rparr>)"
| "step p (Settle base64Data) a =
     (let w = analyzer a
      in if base64Data \<in> set (pending w)
         then (case analyzeImage (window_ai p) base64Data of
                 (outcome, effects) \<Rightarrow>
                   Some (a\<lparr>analyzer :=
                     processAnalysis_settle outcome
                       (w\<lparr>pending := remove1 base64Data (pending w),
                          calls := calls w @ effects\<rparr>)\<rparr>))
         else None)"
| "step p ResetButton a =
     (let w = analyzer a
      in if status w = Error \<or> (status w = Success \<and> truthy (result w))
         then Some (a\<lparr>analyzer := snd (resetState p True w)\<rparr>)
         else None)"
| "step p CameraButton a =
     (if status (analyzer a) \<noteq> Idle then None
      else if isMobile p then Some a
      else Some (render_camera p (a\<lparr>analyzer := setIsCameraOpen True (analyzer a)\<rparr>)))"
| "step p CloseCamera a =
     (if isOpen (capture a)
      then Some (render_camera p (a\<lparr>analyzer := setIsCameraOpen False (analyzer a)\<rparr>))
      else None)"
| "step p (StreamResolved s) a =
     (if 0 < acquiring (capture a) then Some (a\<lparr>capture := stream_resolved s (capture a)\<rparr>)
      else None)"
| "step p (StreamRejected f) a =
     (if 0 < acquiring (capture a) then Some (a\<lparr>capture := stream_rejected f (capture a)\<rparr>)
      else None)"
| "step p MetadataLoaded a =
     (if srcObject (capture a) \<noteq> None \<and> isOpen (capture a)
      then Some (a\<lparr>capture := (capture a)\<lparr>isLoading := False\<rparr>\<rparr>)
      else None)"
| "step p (Snap imageDataUrl) a =
     (if isOpen (capture a) \<and> \<not> isLoading (capture a) \<and> cam_error (capture a) = None
      then Some (render_camera p
             (a\<lparr>analyzer :=
                setIsCameraOpen False
                  (snd (processAnalysis_start p (base64_of_dataUrl imageDataUrl) imageDataUrl
                          (analyzer a)))\<rparr>))
      else None)"

fun run :: "platform \<Rightarrow> event list \<Rightarrow> app \<Rightarrow> app option" where
  "run p [] a = Some a"
| "run p (e # es) a = (case step p e a of None \<Rightarrow> None | Some a1 \<Rightarrow> run p es a1)"

section \<open>Notions used in the statements\<close>

subsection \<open>Fenced blocks\<close>

text \<open>
  The text before and after the first occurrence of a pattern.
\<close>

fun split_at_first :: "jstring \<Rightarrow> jstring \<Rightarrow> (jstring \<times> jstring) option" where
  "split_at_first p [] = (if p = [] then Some ([], []) else None)"
| "split_at_first p (x # xs) =
     (if prefix p (x # xs) then Some ([], drop (length p) (x # xs))
      else map_option (\<lambda>(a, b). (x # a, b)) (split_at_first p xs))"

text \<open>
  The contents of the fenced block of a text, as the specification describes it: what
  stands between the first opening delimiter and the first closing delimiter after it.
\<close>

definition fenced_body :: "jstring \<Rightarrow> jstring option" where
  "fenced_body t =
     (case split_at_first fence_open t of
        None \<Rightarrow> None
      | Some (pre, rest) \<Rightarrow>
          (case split_at_first fence_close rest of
             None \<Rightarrow> None
           | Some (body, post) \<Rightarrow> Some body))"

text \<open>
  The text that the interpreter hands to \<open>JSON.parse\<close>, in the terms of the
  specification: the contents of the fenced block without the white space at their two
  ends, or else the whole text.
\<close>

definition payload :: "jstring \<Rightarrow> jstring" where
  "payload t = (case fenced_body t of Some body \<Rightarrow> trim body | None \<Rightarrow> t)"

text \<open>
  Where the tail of the regular expression, \<^verbatim>\<open>\s*```\<close>, matches, and the first
  such place from the left.
\<close>

definition closes :: "jstring \<Rightarrow> bool" where
  "closes s \<longleftrightarrow> prefix fence_close (dropWhile is_space s)"

fun find_close :: "jstring \<Rightarrow> jstring option" where
  "find_close [] = None"
| "find_close (x # xs) = (if closes (x # xs) then Some (x # xs) else find_close xs)"

subsection \<open>The capability and the browser\<close>

text \<open>
  The capability is absent (\<open>window.ai\<close> is not defined) or reports that no session
  can be created.
\<close>

definition unavailable :: "ai_capability option \<Rightarrow> bool" where
  "unavailable ai =
     (case ai of None \<Rightarrow> True | Some cap \<Rightarrow> canCreateTextSession cap = Inr (utf16 ''no''))"

text \<open>
  The capability is there, says that it is available, and answers the prompt for the
  payload \<open>b\<close> with the text \<open>t\<close>.
\<close>

definition answers :: "ai_capability option \<Rightarrow> jstring \<Rightarrow> jstring \<Rightarrow> bool" where
  "answers ai b t =
     (case ai of
        None \<Rightarrow> False
      | Some cap \<Rightarrow>
          (case canCreateTextSession cap of
             Inl e \<Rightarrow> False
           | Inr available \<Rightarrow>
               available \<noteq> utf16 ''no'' \<and> ai_prompt cap (fullPrompt b) = Inr t))"

text \<open>
  Two capabilities for the examples: one that answers every prompt with the same text,
  and one that answers with the payload that follows the prompt.
\<close>

definition answering :: "jstring \<Rightarrow> ai_capability" where
  "answering t = \<lparr>canCreateTextSession = Inr (utf16 ''readily''), ai_prompt = (\<lambda>q. Inr t)\<rparr>"

definition echo_ai :: ai_capability where
  "echo_ai =
     \<lparr>canCreateTextSession = Inr (utf16 ''readily''),
      ai_prompt = (\<lambda>q. Inr (drop (length (fullPrompt [])) q))\<rparr>"

definition chrome :: platform where
  "chrome =
     \<lparr>window_ai = Some echo_ai, speechSynthesis = True, mediaDevices = True, isMobile = False\<rparr>"

definition silent_browser :: platform where
  "silent_browser =
     \<lparr>window_ai = None, speechSynthesis = False, mediaDevices = True, isMobile = False\<rparr>"

definition cat_text :: jstring where
  "cat_text = utf16 ''{\"description\":\"A cat.\",\"keywords\":[\"cat\"]}''"

definition cat_result :: jsval where
  "cat_result =
     JObj [(utf16 ''description'', JStr (utf16 ''A cat.'')),
           (utf16 ''keywords'', JArr [JStr (utf16 ''cat'')])]"

definition dog_text :: jstring where
  "dog_text = utf16 ''{\"description\":\"A dog.\",\"keywords\":[\"dog\"]}''"

definition dog_result :: jsval where
  "dog_result =
     JObj [(utf16 ''description'', JStr (utf16 ''A dog.'')),
           (utf16 ''keywords'', JArr [JStr (utf16 ''dog'')])]"

definition no_keywords_text :: jstring where
  "no_keywords_text = utf16 ''{\"description\":\"A cat.\",\"keywords\":[]}''"

definition no_keywords_result :: jsval where
  "no_keywords_result =
     JObj [(utf16 ''description'', JStr (utf16 ''A cat.'')), (utf16 ''keywords'', JArr [])]"

text \<open>
  A response whose fenced block starts with a vertical tab (code unit \<open>0xB\<close>), which
  is white space for the regular expression and not for JSON.
\<close>

definition tab_fenced_text :: jstring where
  "tab_fenced_text = fence_open @ [0xB] @ cat_text @ fence_close"

definition refusing_ai :: ai_capability where
  "refusing_ai = \<lparr>canCreateTextSession = Inr (utf16 ''no''), ai_prompt = (\<lambda>q. Inr [])\<rparr>"

subsection \<open>The state machine\<close>

text \<open>
  A state holds a value that is not \<open>null\<close>.
\<close>

fun non_null :: "jsval option \<Rightarrow> bool" where
  "non_null None = False"
| "non_null (Some JNull) = False"
| "non_null (Some v) = True"

text \<open>
  The invariant of the specification: there is a result exactly in the status
  \<open>success\<close>, and an error exactly in the status \<open>error\<close>.
\<close>

definition state_invariant :: "world \<Rightarrow> bool" where
  "state_invariant w \<longleftrightarrow>
     (non_null (result w) \<longleftrightarrow> status w = Success) \<and>
     (error w \<noteq> None \<longleftrightarrow> status w = Error)"

text \<open>
  What is seen of the analyzer at the end of a run: status, result and error.
\<close>

fun observe :: "app option \<Rightarrow> (ProcessingStatus \<times> jsval option \<times> jstring option) option" where
  "observe None = None"
| "observe (Some a) = Some (status (analyzer a), result (analyzer a), error (analyzer a))"

text \<open>
  The status, and the result or the error, that a completion writes.
\<close>

fun written_by :: "thrown + jsval \<Rightarrow> world \<Rightarrow> bool" where
  "written_by (Inr r) w \<longleftrightarrow> status w = Success \<and> result w = Some r"
| "written_by (Inl e) w \<longleftrightarrow> status w = Error \<and> error w = Some (errorMessage e)"

text \<open>
  A run in which no call of \<open>processAnalysis\<close> starts while another one waits for
  its interpretation.
\<close>

fun starts_analysis :: "event \<Rightarrow> bool" where
  "starts_analysis (Submit b u) = True"
| "starts_analysis (Snap d) = True"
| "starts_analysis e = False"

fun overlap_free :: "platform \<Rightarrow> event list \<Rightarrow> app \<Rightarrow> bool" where
  "overlap_free p [] a = True"
| "overlap_free p (e # es) a =
     ((starts_analysis e \<longrightarrow> pending (analyzer a) = []) \<and>
      (case step p e a of None \<Rightarrow> True | Some a1 \<Rightarrow> overlap_free p es a1))"

text \<open>
  The preview reference is an object URL, which has to be released.
\<close>

definition holds_blob :: "jstring option \<Rightarrow> bool" where
  "holds_blob url =
     (case url of None \<Rightarrow> False | Some u \<Rightarrow> u \<noteq> [] \<and> prefix (utf16 ''blob:'') u)"

text \<open>
  The calls of \<open>resetState(true)\<close> that release the preview reference of a state.
\<close>

definition release_calls :: "world \<Rightarrow> effect list" where
  "release_calls w =
     (case imagePreviewUrl w of
        None \<Rightarrow> []
      | Some u \<Rightarrow> if holds_blob (Some u) then [RevokeObjectURL u] else [])"

text \<open>
  A state after a successful analysis of a chosen file, whose preview is an object URL.
\<close>

definition blob_world :: world where
  "blob_world =
     \<lparr>imagePreviewUrl = Some (utf16 ''blob:1''), status = Success, result = Some cat_result,
      error = None, isCameraOpen = False, calls = [], pending = []\<rparr>"

text \<open>
  The invariant fails, respectively holds, in the state that a run ends in.
\<close>

fun violates_invariant :: "app option \<Rightarrow> bool" where
  "violates_invariant None = False"
| "violates_invariant (Some a) = (\<not> state_invariant (analyzer a))"

fun satisfies_invariant :: "app option \<Rightarrow> bool" where
  "satisfies_invariant None = False"
| "satisfies_invariant (Some a) = state_invariant (analyzer a)"

text \<open>
  The part of the invariant that reads from the status to the stored values: with the
  status success there is a result, with the status error there is an error, and with
  the status idle or processing there is neither; and that it holds in the state that a
  run ends in.
\<close>

definition one_way_invariant :: "world \<Rightarrow> bool" where
  "one_way_invariant w \<longleftrightarrow>
     (status w = Success \<longrightarrow> non_null (result w)) \<and>
     (status w = Error \<longrightarrow> error w \<noteq> None) \<and>
     (status w = Idle \<or> status w = Processing \<longrightarrow> result w = None \<and> error w = None)"

fun satisfies_one_way :: "app option \<Rightarrow> bool" where
  "satisfies_one_way None = False"
| "satisfies_one_way (Some a) = one_way_invariant (analyzer a)"

text \<open>
  The invariant, strengthened for the runs without overlap: at most one call waits for its
  interpretation, and while one does, the status is processing and neither a result nor an
  error is stored.
\<close>

definition quiet :: "world \<Rightarrow> bool" where
  "quiet w \<longleftrightarrow>
     state_invariant w \<and> length (pending w) \<le> 1 \<and>
     (pending w \<noteq> [] \<longrightarrow> status w = Processing \<and> result w = None \<and> error w = None)"

text \<open>
  Between two states of the capture view, the stream that the first one held has been torn
  down: its tracks have been stopped, in their order, and the reference is cleared.
\<close>

definition torn_down :: "camera \<Rightarrow> camera \<Rightarrow> bool" where
  "torn_down c c1 \<longleftrightarrow>
     streamRef c1 = None \<and>
     stopped c1 = stopped c @ (case streamRef c of None \<Rightarrow> [] | Some s \<Rightarrow> s)"

text \<open>
  The application with the capture view open on a stream of two tracks, and the same after
  an analysis has failed.
\<close>

definition filming :: app where
  "filming =
     \<lparr>analyzer = init_world\<lparr>isCameraOpen := True\<rparr>,
      capture = \<lparr>isOpen = True, streamRef = Some [1, 2], srcObject = Some [1, 2],
                 cam_error = None, isLoading = False, acquiring = 0, stopped = []\<rparr>\<rparr>"

definition failed_filming :: app where
  "failed_filming =
     filming\<lparr>analyzer := (analyzer filming)\<lparr>status := Error, error := Some not_understood_message\<rparr>\<rparr>"

section \<open>The parser consumes its input\<close>

lemma parse_chars_shorter:
  "parse_chars s = Some (x, r) \<Longrightarrow> length r < length s"
proof (induction s arbitrary: x r rule: parse_chars.induct)
  case 1
  then show ?case by simp
next
  case (2 c r0)
  then show ?case
    by (fastforce split: if_splits list.splits option.splits prod.splits)
qed

lemma skip_ws_length: "length (skip_ws s) \<le> length s"
  unfolding skip_ws_def by (rule length_dropWhile_le)

lemma skip_ws_Cons_length: "skip_ws s = d # r \<Longrightarrow> length r < length s"
  using skip_ws_length[of s] by simp

lemma parse_exp_digits_shorter:
  "parse_exp_digits neg s = Some (e, r) \<Longrightarrow> length r < length s"
  using length_dropWhile_le[of is_digit "tl s"]
  by (auto simp: parse_exp_digits_def split: list.splits if_splits)

lemma parse_exp_part_shorter:
  "parse_exp_part s = Some (e, r) \<Longrightarrow> length r \<le> length s"
  by (auto simp: parse_exp_part_def split: list.splits if_splits
      dest!: parse_exp_digits_shorter)

lemma parse_frac_part_shorter:
  "parse_frac_part s = Some (e, r) \<Longrightarrow> length r \<le> length s"
  using length_dropWhile_le[of is_digit "tl (tl s)"]
  by (auto simp: parse_frac_part_def split: list.splits if_splits)

lemma parse_int_part_shorter:
  "parse_int_part s = Some (e, r) \<Longrightarrow> length r < length s"
  using length_dropWhile_le[of is_digit "tl s"]
  by (auto simp: parse_int_part_def split: list.splits if_splits)

lemma parse_number_shorter:
  "parse_number s = Some (n, r) \<Longrightarrow> length r < length s"
  by (auto simp: parse_number_def Let_def split: option.splits prod.splits if_splits
      dest!: parse_int_part_shorter parse_frac_part_shorter parse_exp_part_shorter)

lemma parse_shorter:
  "parse_value s = Some (v, r) \<Longrightarrow> length r < length s"
  "parse_elements s1 = Some (vs, r1) \<Longrightarrow> length r1 < length s1"
  "parse_members s2 = Some (kvs, r2) \<Longrightarrow> length r2 < length s2"
proof (induction s and s1 and s2 arbitrary: v r and vs r1 and kvs r2
    rule: parse_value_parse_elements_parse_members.induct)
  case 1
  then show ?case by simp
next
  case (2 c r0)
  show ?case
  proof (cases "c = cu CHR ''{''")
    case True
    with "2.prems" show ?thesis
      using "2.IH"(1) skip_ws_Cons_length[of r0]
      by (fastforce split: list.splits if_splits prod.splits)
  next
    case nb: False
    show ?thesis
    proof (cases "c = cu CHR ''[''")
      case True
      with nb "2.prems" show ?thesis
        using "2.IH"(2) skip_ws_Cons_length[of r0]
        by (fastforce split: list.splits if_splits prod.splits)
    next
      case False
      with nb "2.prems" show ?thesis
        by (auto simp: utf16_def split: if_splits
            dest!: parse_chars_shorter parse_number_shorter)
    qed
  qed
next
  case (3 s)
  from "3.prems" obtain v0 r0 where pv: "parse_value s = Some (v0, r0)"
    by (auto split: option.splits)
  from "3.IH"(1)[OF pv] have l0: "length r0 < length s" .
  from "3.prems" pv obtain d r' where sk: "skip_ws r0 = d # r'"
    by (auto split: list.splits)
  from skip_ws_Cons_length[OF sk] l0 have l1: "length r' < length s" by simp
  show ?case
  proof (cases "d = cu CHR '']''")
    case True
    with "3.prems" pv sk l1 show ?thesis by simp
  next
    case False
    with "3.prems" pv sk obtain vs' where
      pe: "parse_elements (skip_ws r') = Some (vs', r1)" and dc: "d = cu CHR '',''"
      by (auto split: if_splits)
    have "length r1 < length (skip_ws r')"
      by (rule "3.IH"(2)[OF pv refl sk False _ pe]) (use dc l1 in simp)
    with skip_ws_length[of r'] l1 show ?thesis by simp
  qed
next
  case (4 s)
  from "4.prems" obtain q r where s: "s = q # r" and q: "q = 0x22"
    by (auto split: list.splits if_splits)
  from "4.prems" s q obtain k ra where pc: "parse_chars r = Some (k, ra)"
    by (auto split: option.splits)
  from "4.prems" s q pc obtain col rb where sk1: "skip_ws ra = col # rb"
    by (auto split: list.splits)
  from "4.prems" s q pc sk1 have g1: "col = cu CHR '':'' \<and> length rb < length s"
    by (auto split: if_splits)
  from "4.prems" s q pc sk1 g1 obtain v0 rc where pv: "parse_value (skip_ws rb) = Some (v0, rc)"
    by (auto split: option.splits)
  from "4.prems" s q pc sk1 g1 pv obtain d rd where sk2: "skip_ws rc = d # rd"
    by (auto split: list.splits)
  have "length rc < length (skip_ws rb)"
    by (rule "4.IH"(1)[OF s q pc refl sk1 g1 pv])
  with skip_ws_length[of rb] g1 have lc: "length rc < length s" by simp
  with skip_ws_Cons_length[OF sk2] have ld: "length rd < length s" by simp
  show ?case
  proof (cases "d = cu CHR ''}''")
    case True
    with "4.prems" s q pc sk1 g1 pv sk2 ld show ?thesis by simp
  next
    case False
    with "4.prems" s q pc sk1 g1 pv sk2 obtain kvs' where
      pm: "parse_members (skip_ws rd) = Some (kvs', r2)" and g2: "d = cu CHR '','' \<and> length rd < length s"
      by (auto split: if_splits)
    have "length r2 < length (skip_ws rd)"
      by (rule "4.IH"(2)[OF s q pc refl sk1 g1 pv refl sk2 False g2 pm])
    with skip_ws_length[of rd] ld show ?thesis by simp
  qed
qed

lemma parse_elements_eq:
  "parse_elements s =
     (case parse_value s of
        None \<Rightarrow> None
      | Some (v, r) \<Rightarrow>
          (case skip_ws r of
             [] \<Rightarrow> None
           | d # r1 \<Rightarrow>
               if d = cu CHR '']'' then Some ([v], r1)
               else if d = cu CHR '','' then
                 map_option (\<lambda>(vs, rest). (v # vs, rest)) (parse_elements (skip_ws r1))
               else None))"
proof (cases "parse_value s")
  case None
  then show ?thesis by simp
next
  case (Some a)
  then obtain v r where pv: "parse_value s = Some (v, r)" by (cases a) simp
  show ?thesis
  proof (cases "skip_ws r")
    case Nil
    with pv show ?thesis by simp
  next
    case (Cons d r1)
    from parse_shorter(1)[OF pv] skip_ws_Cons_length[OF Cons] have "length r1 < length s"
      by simp
    with pv Cons show ?thesis by (subst parse_elements.simps) simp
  qed
qed

lemma parse_members_eq:
  "parse_members s =
     (case s of
        [] \<Rightarrow> None
      | q # r \<Rightarrow>
          if q = 0x22 then
            (case parse_chars r of
               None \<Rightarrow> None
             | Some (k, r1) \<Rightarrow>
                 (case skip_ws r1 of
                    [] \<Rightarrow> None
                  | col # r2 \<Rightarrow>
                      if col = cu CHR '':'' then
                        (case parse_value (skip_ws r2) of
                           None \<Rightarrow> None
                         | Some (v, r3) \<Rightarrow>
                             (case skip_ws r3 of
                                [] \<Rightarrow> None
                              | d # r4 \<Rightarrow>
                                  if d = cu CHR ''}'' then Some ([(k, v)], r4)
                                  else if d = cu CHR '','' then
                                    map_option (\<lambda>(kvs, rest). ((k, v) # kvs, rest))
                                      (parse_members (skip_ws r4))
                                  else None))
                      else None))
          else None)"
proof (cases s)
  case Nil
  then show ?thesis by simp
next
  case (Cons q r)
  show ?thesis
  proof (cases "parse_chars r")
    case None
    with Cons show ?thesis by simp
  next
    case (Some a)
    then obtain k r1 where pc: "parse_chars r = Some (k, r1)" by (cases a) simp
    from parse_chars_shorter[OF pc] have l1: "length r1 < length r" .
    show ?thesis
    proof (cases "skip_ws r1")
      case Nil
      with Cons pc show ?thesis by simp
    next
      case c2: (Cons col r2)
      from skip_ws_Cons_length[OF c2] l1 Cons have l2: "length r2 < length s" by simp
      show ?thesis
      proof (cases "parse_value (skip_ws r2)")
        case None
        with Cons pc c2 l2 show ?thesis by simp
      next
        case (Some b)
        then obtain v r3 where pv: "parse_value (skip_ws r2) = Some (v, r3)" by (cases b) simp
        from parse_shorter(1)[OF pv] skip_ws_length[of r2] l2
        have l3: "length r3 < length s" by simp
        show ?thesis
        proof (cases "skip_ws r3")
          case Nil
          with Cons pc c2 l2 pv show ?thesis by simp
        next
          case c4: (Cons d r4)
          from skip_ws_Cons_length[OF c4] l3 have "length r4 < length s" by simp
          with Cons pc c2 l2 pv c4 show ?thesis by simp
        qed
      qed
    qed
  qed
qed

section \<open>What the regular expression extracts\<close>

lemma fence_close_units: "fence_close = [0x60, 0x60, 0x60]"
  by (simp add: fence_close_def utf16_def)

lemma fence_open_units: "fence_open = [0x60, 0x60, 0x60, 0x6A, 0x73, 0x6F, 0x6E]"
  by (simp add: fence_open_def utf16_def)

lemma fence_open_close: "fence_open = fence_close @ utf16 ''json''"
  by (simp add: fence_open_def fence_close_def utf16_def)

lemma backtick_not_space: "\<not> is_space 0x60"
  by (simp add: is_space_def)

lemma not_closes_Nil: "\<not> closes []"
  by (simp add: closes_def fence_close_units)

lemma closes_space: "is_space x \<Longrightarrow> closes (x # xs) = closes xs"
  by (simp add: closes_def)

lemma closes_nonspace: "\<not> is_space x \<Longrightarrow> closes (x # xs) = prefix fence_close (x # xs)"
  by (simp add: closes_def)

lemma space_not_prefix: "is_space x \<Longrightarrow> \<not> prefix fence_close (x # xs)"
  using backtick_not_space by (auto simp: fence_close_units)

lemma match_tail:
  "rx_match [Greedy WhiteSpace, Lit fence_close] s go gc = (if closes s then Some (go, gc) else None)"
proof (induction s)
  case Nil
  then show ?case by (simp add: not_closes_Nil) (simp add: fence_close_units)
next
  case (Cons x xs)
  show ?case
  proof (cases "is_space x")
    case True
    then show ?thesis using Cons space_not_prefix[OF True, of xs]
      by (simp add: closes_space)
  next
    case False
    then show ?thesis by (simp add: closes_nonspace)
  qed
qed

lemma match_lazy:
  "rx_match [Lazy AnyUnit, GroupClose, Greedy WhiteSpace, Lit fence_close] s go gc =
     map_option (\<lambda>s'. (go, s')) (find_close s)"
proof (induction s)
  case Nil
  then show ?case using match_tail[of "[]" go "[]"] by (simp add: not_closes_Nil)
next
  case (Cons x xs)
  then show ?case using match_tail[of "x # xs" go "x # xs"] by simp
qed

lemma find_close_closes: "closes s \<Longrightarrow> find_close s = Some s"
  by (cases s) (auto simp: not_closes_Nil)

lemma closes_dropWhile: "closes (dropWhile is_space s) = closes s"
  by (simp add: closes_def)

lemma find_close_skip_None:
  "find_close (dropWhile is_space s) = None \<Longrightarrow> find_close s = None"
proof (induction s)
  case Nil
  then show ?case by simp
next
  case (Cons x xs)
  show ?case
  proof (cases "is_space x")
    case True
    with Cons have n: "find_close xs = None" by simp
    have "\<not> closes xs"
    proof
      assume "closes xs"
      then have "closes (dropWhile is_space xs)" by (simp add: closes_dropWhile)
      then have "find_close (dropWhile is_space xs) \<noteq> None" by (simp add: find_close_closes)
      with Cons.prems True show False by simp
    qed
    with n True show ?thesis by (simp add: closes_space)
  next
    case False
    with Cons.prems show ?thesis by simp
  qed
qed

lemma match_body:
  "rx_match [Greedy WhiteSpace, GroupOpen, Lazy AnyUnit, GroupClose, Greedy WhiteSpace, Lit fence_close] s go gc =
     map_option (\<lambda>s'. (dropWhile is_space s, s')) (find_close (dropWhile is_space s))"
proof (induction s)
  case Nil
  then show ?case using match_lazy[of "[]" "[]" gc] by simp
next
  case (Cons x xs)
  show ?case
  proof (cases "is_space x")
    case True
    show ?thesis
    proof (cases "find_close (dropWhile is_space xs)")
      case None
      then have "find_close xs = None" by (rule find_close_skip_None)
      moreover have "\<not> closes (x # xs)"
      proof
        assume "closes (x # xs)"
        then have "closes (dropWhile is_space xs)" using True by (simp add: closes_def)
        then show False using None by (simp add: find_close_closes)
      qed
      ultimately show ?thesis using Cons True None match_lazy[of "x # xs" "x # xs" gc]
        by simp
    next
      case (Some a)
      then show ?thesis using Cons True by simp
    qed
  next
    case False
    then show ?thesis using match_lazy[of "x # xs" "x # xs" gc] by simp
  qed
qed

lemma match_jsonRegex:
  "rx_match jsonRegex s go gc =
     (if prefix fence_open s
      then map_option (\<lambda>s'. (dropWhile is_space (drop (length fence_open) s), s'))
             (find_close (dropWhile is_space (drop (length fence_open) s)))
      else None)"
  using match_body[of "drop (length fence_open) s" go gc]
  by (simp add: jsonRegex_def)

lemma dropWhile_append_stop:
  "ys \<noteq> [] \<Longrightarrow> \<not> P (hd ys) \<Longrightarrow> dropWhile P (xs @ ys) = dropWhile P xs @ ys"
  by (induction xs) (auto simp: neq_Nil_conv)

lemma take_append_enough: "n \<le> length a \<Longrightarrow> take n (a @ c) = take n a"
  by simp

lemma prefix_close_cut:
  assumes "v \<noteq> []" and "prefix fence_close (v @ r @ fence_close @ post)"
  shows "prefix fence_close (v @ r @ butlast fence_close)"
proof -
  let ?a = "v @ r @ butlast fence_close"
  have len: "3 \<le> length ?a"
    using assms(1) by (cases v) (simp_all add: fence_close_units)
  have split: "v @ r @ fence_close @ post = ?a @ (last fence_close # post)"
    by (simp add: fence_close_units)
  from assms(2) obtain z where z: "v @ r @ fence_close @ post = fence_close @ z"
    by (auto simp: prefix_def)
  have "take 3 (v @ r @ fence_close @ post) = fence_close"
    unfolding z by (simp add: fence_close_units)
  moreover have "take 3 (v @ r @ fence_close @ post) = take 3 ?a"
    unfolding split using len by (rule take_append_enough)
  ultimately have "take 3 ?a = fence_close" by simp
  moreover have "prefix (take 3 ?a) ?a" by (rule take_is_prefix)
  ultimately show ?thesis by simp
qed

lemma find_close_core:
  assumes "u \<noteq> []" and "\<not> is_space (last u)"
    and "\<not> sublist fence_close (u @ w @ butlast fence_close)"
    and "\<forall>c \<in> set w. is_space c"
  shows "find_close (u @ w @ fence_close @ post) = Some (w @ fence_close @ post)"
  using assms
proof (induction u)
  case Nil
  then show ?case by simp
next
  case (Cons x u)
  have "dropWhile is_space (w @ fence_close @ post) = dropWhile is_space w @ fence_close @ post"
    using backtick_not_space
    by (intro dropWhile_append_stop) (simp_all add: fence_close_units)
  moreover have "dropWhile is_space w = []"
    using Cons.prems(4) by (simp add: dropWhile_eq_Nil_conv)
  ultimately have cw: "closes (w @ fence_close @ post)"
    by (simp add: closes_def)
  have nc: "\<not> closes (x # u @ w @ fence_close @ post)"
  proof
    assume c: "closes (x # u @ w @ fence_close @ post)"
    define v where "v = dropWhile is_space (x # u)"
    have mem: "last (x # u) \<in> set (x # u)" by (rule last_in_set) simp
    have ne: "v \<noteq> []"
      using Cons.prems(2) mem unfolding v_def dropWhile_eq_Nil_conv by blast
    have "dropWhile is_space ((x # u) @ w @ fence_close @ post) = v @ w @ fence_close @ post"
      unfolding v_def using mem Cons.prems(2) by (rule dropWhile_append1)
    with c have "prefix fence_close (v @ w @ fence_close @ post)"
      by (simp add: closes_def)
    with ne have "prefix fence_close (v @ w @ butlast fence_close)"
      by (rule prefix_close_cut)
    then obtain z where z: "v @ w @ butlast fence_close = fence_close @ z"
      by (auto simp: prefix_def)
    have "suffix v (x # u)" unfolding v_def by (rule suffix_dropWhile)
    then obtain y where y: "x # u = y @ v" by (auto simp: suffix_def)
    have "(x # u) @ w @ butlast fence_close = y @ fence_close @ z"
      unfolding y using z by simp
    then have "sublist fence_close ((x # u) @ w @ butlast fence_close)"
      unfolding sublist_def by blast
    with Cons.prems(3) show False by simp
  qed
  show ?case
  proof (cases "u = []")
    case True
    then show ?thesis using nc cw by (simp add: find_close_closes)
  next
    case False
    have "\<not> sublist fence_close (u @ w @ butlast fence_close)"
      using Cons.prems(3) by (simp add: sublist_Cons_right)
    with Cons False have "find_close (u @ w @ fence_close @ post) = Some (w @ fence_close @ post)"
      by simp
    with nc show ?thesis by simp
  qed
qed

lemma split_at_first_Some:
  assumes "p \<noteq> []" and "split_at_first p t = Some (a, b)"
  shows "t = a @ p @ b \<and> \<not> sublist p (a @ butlast p)"
  using assms(2)
proof (induction t arbitrary: a)
  case Nil
  with assms(1) show ?case by simp
next
  case (Cons x xs)
  show ?case
  proof (cases "prefix p (x # xs)")
    case True
    with Cons.prems have a: "a = []" and b: "b = drop (length p) (x # xs)" by simp_all
    from True have "x # xs = p @ b" unfolding b by (auto simp: prefix_def)
    moreover have "\<not> sublist p (butlast p)"
    proof
      assume "sublist p (butlast p)"
      then have "length p \<le> length (butlast p)" by (rule sublist_length_le)
      with assms(1) show False by (cases p rule: rev_cases) simp_all
    qed
    ultimately show ?thesis using a by simp
  next
    case False
    with Cons.prems obtain a' where s: "split_at_first p xs = Some (a', b)" and a: "a = x # a'"
      by (auto split: prod.splits)
    from Cons.IH[OF s] have xs: "xs = a' @ p @ b" and ns: "\<not> sublist p (a' @ butlast p)"
      by simp_all
    have "\<not> prefix p (x # a' @ butlast p)"
    proof
      assume "prefix p (x # a' @ butlast p)"
      moreover have "prefix (x # a' @ butlast p) (x # a' @ p @ b)"
        using assms(1) by (cases p rule: rev_cases) simp_all
      ultimately have "prefix p (x # a' @ p @ b)" by (rule prefix_order.trans)
      with False xs show False by simp
    qed
    with ns have "\<not> sublist p (x # a' @ butlast p)" by (simp add: sublist_Cons_right)
    with xs a show ?thesis by simp
  qed
qed

lemma split_at_first_None:
  "split_at_first p t = None \<Longrightarrow> \<not> sublist p t"
proof (induction t)
  case Nil
  then show ?case by (simp split: if_splits)
next
  case (Cons x xs)
  then show ?case by (auto simp: sublist_Cons_right split: if_splits)
qed

lemma find_close_Some:
  "find_close s = Some s' \<Longrightarrow> suffix s' s \<and> closes s'"
proof (induction s)
  case Nil
  then show ?case by simp
next
  case (Cons x xs)
  then show ?case by (auto simp: suffix_Cons split: if_splits)
qed

lemma closes_sublist: "closes s \<Longrightarrow> sublist fence_close s"
proof -
  assume "closes s"
  then obtain z where "dropWhile is_space s = fence_close @ z"
    by (auto simp: closes_def prefix_def)
  then have "s = takeWhile is_space s @ fence_close @ z"
    by (metis takeWhile_dropWhile_id)
  then show ?thesis unfolding sublist_def by blast
qed

lemma find_close_sublist:
  assumes "find_close s = Some s'" shows "sublist fence_close s"
proof -
  from find_close_Some[OF assms] have "suffix s' s" and "closes s'" by simp_all
  then have "sublist s' s" and "sublist fence_close s'"
    by (simp_all add: closes_sublist)
  then show ?thesis by (meson sublist_order.order_trans)
qed

lemma find_close_unfenced:
  assumes "split_at_first fence_close r = None"
  shows "find_close (dropWhile is_space r) = None"
proof (cases "find_close (dropWhile is_space r)")
  case None
  then show ?thesis .
next
  case (Some s')
  then have "sublist fence_close (dropWhile is_space r)" by (rule find_close_sublist)
  moreover have "sublist (dropWhile is_space r) r"
    by (simp add: suffix_dropWhile)
  ultimately have "sublist fence_close r" by (meson sublist_order.order_trans)
  with split_at_first_None[OF assms] show ?thesis by simp
qed

lemma find_close_fenced:
  assumes "split_at_first fence_close r = Some (body, post)"
  defines "w \<equiv> rev (takeWhile is_space (rev (dropWhile is_space body)))"
  shows "dropWhile is_space r = trim body @ w @ fence_close @ post"
    and "find_close (dropWhile is_space r) = Some (w @ fence_close @ post)"
proof -
  have ne: "fence_close \<noteq> []" by (simp add: fence_close_units)
  from split_at_first_Some[OF ne assms(1)]
  have r: "r = body @ fence_close @ post"
    and ns: "\<not> sublist fence_close (body @ butlast fence_close)" by simp_all
  define b where "b = dropWhile is_space body"
  have b: "b = trim body @ w"
    unfolding trim_def w_def b_def
    by (metis rev_append rev_rev_ident takeWhile_dropWhile_id)
  have "dropWhile is_space (body @ fence_close @ post) = b @ fence_close @ post"
    unfolding b_def using backtick_not_space
    by (intro dropWhile_append_stop) (simp_all add: fence_close_units)
  then show d: "dropWhile is_space r = trim body @ w @ fence_close @ post"
    using r b by simp
  have ws: "\<forall>c \<in> set w. is_space c"
    unfolding w_def by (auto dest: set_takeWhileD)
  have "suffix b body" unfolding b_def by (rule suffix_dropWhile)
  then obtain y where y: "body = y @ b" by (auto simp: suffix_def)
  have nsb: "\<not> sublist fence_close (trim body @ w @ butlast fence_close)"
  proof
    assume "sublist fence_close (trim body @ w @ butlast fence_close)"
    then have "sublist fence_close (b @ butlast fence_close)"
      by (simp only: b append_assoc)
    then have "sublist fence_close (y @ (b @ butlast fence_close))"
      by (simp add: sublist_append)
    then have "sublist fence_close ((y @ b) @ butlast fence_close)"
      by (simp only: append_assoc)
    with ns show False by (simp only: y[symmetric])
  qed
  show "find_close (dropWhile is_space r) = Some (w @ fence_close @ post)"
  proof (cases "trim body = []")
    case True
    have "b = []"
    proof (rule ccontr)
      assume "b \<noteq> []"
      then have "\<not> is_space (hd b)" unfolding b_def by (rule hd_dropWhile)
      moreover have "hd b \<in> set w" using b True \<open>b \<noteq> []\<close> by simp
      ultimately show False using ws by blast
    qed
    with b True have "w = []" by simp
    moreover have "closes (fence_close @ post)"
      using backtick_not_space by (simp add: closes_def fence_close_units)
    ultimately show ?thesis using d True by (simp add: find_close_closes)
  next
    case False
    have "trim body = rev (dropWhile is_space (rev b))" by (simp add: trim_def b_def)
    with False have "last (trim body) = hd (dropWhile is_space (rev b))"
      and "dropWhile is_space (rev b) \<noteq> []"
      by (simp_all add: last_rev)
    then have "\<not> is_space (last (trim body))" by (simp add: hd_dropWhile)
    from find_close_core[OF False this nsb ws] show ?thesis using d by simp
  qed
qed

lemma find_close_None_search:
  "find_close r = None \<Longrightarrow> rx_search jsonRegex r = None"
proof (induction r)
  case Nil
  then show ?case by (simp add: match_jsonRegex fence_open_units)
next
  case (Cons x xs)
  from Cons.prems have nc: "\<not> closes (x # xs)" and n: "find_close xs = None"
    by (simp_all split: if_splits)
  have "\<not> prefix fence_open (x # xs)"
  proof
    assume p: "prefix fence_open (x # xs)"
    then have "x = 0x60" by (simp add: fence_open_units)
    then have "dropWhile is_space (x # xs) = x # xs" using backtick_not_space by simp
    moreover from p have "prefix fence_close (x # xs)"
      unfolding fence_open_close by (rule append_prefixD)
    ultimately show False using nc by (simp add: closes_def)
  qed
  then show ?case using Cons.IH[OF n] by (simp add: match_jsonRegex)
qed

lemma search_after_open:
  assumes "rx_match jsonRegex (fence_open @ r) (fence_open @ r) (fence_open @ r) = None"
  shows "rx_search jsonRegex (fence_open @ r) = rx_search jsonRegex r"
  using assms
  by (simp add: fence_open_units) (simp add: match_jsonRegex fence_open_units)

lemma rx_search_split:
  "rx_search jsonRegex t =
     (case split_at_first fence_open t of
        None \<Rightarrow> None
      | Some (pre, r) \<Rightarrow>
          map_option (\<lambda>s'. (dropWhile is_space r, s')) (find_close (dropWhile is_space r)))"
proof (induction t)
  case Nil
  then show ?case by (simp add: match_jsonRegex fence_open_units)
next
  case (Cons x xs)
  show ?case
  proof (cases "prefix fence_open (x # xs)")
    case False
    then show ?thesis using Cons
      by (simp add: match_jsonRegex split: option.splits prod.splits)
  next
    case True
    define r where "r = drop (length fence_open) (x # xs)"
    from True have xr: "x # xs = fence_open @ r" unfolding r_def by (auto simp: prefix_def)
    have sp: "split_at_first fence_open (x # xs) = Some ([], r)"
      using True by (simp add: r_def)
    show ?thesis
    proof (cases "find_close (dropWhile is_space r)")
      case (Some s')
      then show ?thesis using True sp
        by (simp add: match_jsonRegex r_def)
    next
      case None
      then have m: "rx_match jsonRegex (x # xs) (x # xs) (x # xs) = None"
        using True by (simp add: match_jsonRegex r_def)
      from None have "find_close r = None" by (rule find_close_skip_None)
      then have "rx_search jsonRegex r = None" by (rule find_close_None_search)
      moreover have "rx_search jsonRegex (fence_open @ r) = rx_search jsonRegex r"
        using m unfolding xr by (rule search_after_open)
      ultimately have "rx_search jsonRegex (x # xs) = None" by (simp only: xr)
      then show ?thesis using sp None by (simp only: option.case prod.case option.map)
    qed
  qed
qed

lemma cleanText_fenced_body:
  "cleanText t = (case fenced_body t of Some body \<Rightarrow> trim body | None \<Rightarrow> t)"
proof (cases "split_at_first fence_open t")
  case None
  then show ?thesis by (simp add: cleanText_def rx_search_split fenced_body_def)
next
  case (Some a)
  then obtain pre r where s: "split_at_first fence_open t = Some (pre, r)" by (cases a) simp
  show ?thesis
  proof (cases "split_at_first fence_close r")
    case None
    then have "find_close (dropWhile is_space r) = None" by (rule find_close_unfenced)
    then show ?thesis using s None by (simp add: cleanText_def rx_search_split fenced_body_def)
  next
    case (Some c)
    then obtain body post where c: "split_at_first fence_close r = Some (body, post)"
      by (cases c) simp
    from find_close_fenced[OF c] show ?thesis using s c
      by (simp add: cleanText_def rx_search_split fenced_body_def group1_def)
  qed
qed

lemma find_close_append: "find_close (a @ fence_close @ post) \<noteq> None"
proof (induction a)
  case Nil
  have "closes (fence_close @ post)"
    using backtick_not_space by (simp add: closes_def fence_close_units)
  then show ?case by (simp add: find_close_closes)
next
  case (Cons x a)
  then show ?case by simp
qed

lemma rx_search_finds:
  "rx_search jsonRegex (pre @ fence_open @ body @ fence_close @ post) \<noteq> None"
proof (induction pre)
  case Nil
  define s where "s = fence_open @ body @ fence_close @ post"
  have "find_close (dropWhile is_space (body @ fence_close @ post)) \<noteq> None"
  proof
    assume "find_close (dropWhile is_space (body @ fence_close @ post)) = None"
    then have "find_close (body @ fence_close @ post) = None" by (rule find_close_skip_None)
    with find_close_append[of body post] show False by simp
  qed
  then have m: "rx_match jsonRegex s s s \<noteq> None"
    unfolding s_def by (simp add: match_jsonRegex)
  obtain x xs where c: "s = x # xs"
    unfolding s_def by (cases fence_open) (simp_all add: fence_open_units)
  from m have "rx_search jsonRegex s \<noteq> None"
    unfolding c by (cases "rx_match jsonRegex (x # xs) (x # xs) (x # xs)") simp_all
  then show ?case by (simp add: s_def)
next
  case (Cons x pre)
  show ?case
  proof (cases "rx_match jsonRegex (x # pre @ fence_open @ body @ fence_close @ post)
      (x # pre @ fence_open @ body @ fence_close @ post)
      (x # pre @ fence_open @ body @ fence_close @ post)")
    case None
    with Cons show ?thesis by simp
  next
    case (Some a)
    then show ?thesis by simp
  qed
qed

lemma fenced_body_None:
  assumes "fenced_body t = None"
  shows "\<not> (\<exists>pre body post. t = pre @ fence_open @ body @ fence_close @ post)"
proof -
  have "rx_search jsonRegex t = None"
  proof (cases "split_at_first fence_open t")
    case None
    then show ?thesis by (simp add: rx_search_split)
  next
    case (Some a)
    then obtain pre r where s: "split_at_first fence_open t = Some (pre, r)" by (cases a) simp
    with assms have "split_at_first fence_close r = None"
      by (auto simp: fenced_body_def split: option.splits)
    then have "find_close (dropWhile is_space r) = None" by (rule find_close_unfenced)
    with s show ?thesis by (simp add: rx_search_split)
  qed
  then show ?thesis using rx_search_finds by blast
qed

lemma fenced_body_Some:
  assumes "fenced_body t = Some body"
  shows "\<exists>pre post. t = pre @ fence_open @ body @ fence_close @ post \<and>
           \<not> sublist fence_open (pre @ butlast fence_open) \<and>
           \<not> sublist fence_close (body @ butlast fence_close)"
proof -
  from assms obtain pre r post where
    s1: "split_at_first fence_open t = Some (pre, r)" and
    s2: "split_at_first fence_close r = Some (body, post)"
    by (auto simp: fenced_body_def split: option.splits)
  have "fence_open \<noteq> []" "fence_close \<noteq> []"
    by (simp_all add: fence_open_units fence_close_units)
  from split_at_first_Some[OF this(1) s1] split_at_first_Some[OF this(2) s2]
  have "t = pre @ fence_open @ r" "\<not> sublist fence_open (pre @ butlast fence_open)"
    "r = body @ fence_close @ post" "\<not> sublist fence_close (body @ butlast fence_close)"
    by blast+
  then show ?thesis by blast
qed

lemma cleanText_payload: "cleanText t = payload t"
  by (simp add: cleanText_fenced_body payload_def)

section \<open>The interpreter\<close>

lemma analyzeImage_answers:
  assumes "answers ai b t"
  shows "analyzeImage ai b =
     (case (case JSON_parse (cleanText t) of
              None \<Rightarrow> Inl JSON_SyntaxError
            | Some r \<Rightarrow> validate r) of
        Inr r \<Rightarrow> (Inr r, [])
      | Inl e \<Rightarrow> (Inl (catch_block e), [ConsoleError (Some analyze_error_label) e]))"
  using assms
  by (auto simp: answers_def analyzeImage_def try_block_def split: option.splits sum.splits)

lemma answers_answering: "answers (Some (answering t)) b t"
  by (simp add: answers_def answering_def utf16_def)

lemma answers_echo: "answers (Some echo_ai) b b"
  by (simp add: answers_def echo_ai_def fullPrompt_def) (simp add: utf16_def)

lemma validate_JNull:
  "validate JNull = Inl (ErrorObject TypeErrorClass (null_read_message (utf16 ''description'')))"
  by (simp add: validate_def)

lemma validate_Inr:
  assumes "validate v = Inr r"
  shows "r = v \<and> (\<exists>kvs. v = JObj kvs \<and> truthy (map_of (rev kvs) (utf16 ''description''))
           \<and> isArray (map_of (rev kvs) (utf16 ''keywords'')))"
  using assms by (cases v) (auto simp: validate_def split: if_splits)

lemma parse_null: "JSON_parse (cleanText (utf16 ''null'')) = Some JNull"
  by code_simp

lemma parse_not_json: "JSON_parse (cleanText (utf16 ''not json'')) = None"
  by code_simp

lemma parse_cat: "JSON_parse (cleanText cat_text) = Some cat_result"
  by code_simp

lemma parse_dog: "JSON_parse (cleanText dog_text) = Some dog_result"
  by code_simp

lemma parse_no_keywords: "JSON_parse (cleanText no_keywords_text) = Some no_keywords_result"
  by code_simp

lemma validate_cat: "validate cat_result = Inr cat_result"
  by code_simp

lemma validate_dog: "validate dog_result = Inr dog_result"
  by code_simp

lemma validate_no_keywords: "validate no_keywords_result = Inr no_keywords_result"
  by code_simp

lemma tab_fenced: "fenced_body tab_fenced_text = Some (0xB # cat_text)"
  by code_simp

lemma tab_clean: "cleanText tab_fenced_text = cat_text"
  by code_simp

lemma tab_parse: "JSON_parse (0xB # cat_text) = None"
  by code_simp

lemma mock_ok: "validate mock_result = Inr mock_result"
  by code_simp

text \<open>
  C2 (as amended). When the capability answers with a text, \<open>analyzeImage\<close> parses the
  payload of the text: the contents of its first fenced block (from the first
  \<^verbatim>\<open>```json\<close> to the first \<^verbatim>\<open>```\<close> after it) without the white space at the two
  ends of the contents, and the whole text when it has no such block. The outcome is the
  one of parsing and validating that payload.
\<close>

theorem analyzeImage_parses_payload:
  assumes "answers ai b t"
  shows "cleanText t = payload t \<and>
     analyzeImage ai b =
       (case (case JSON_parse (payload t) of
                None \<Rightarrow> Inl JSON_SyntaxError
              | Some r \<Rightarrow> validate r) of
          Inr r \<Rightarrow> (Inr r, [])
        | Inl e \<Rightarrow> (Inl (catch_block e), [ConsoleError (Some analyze_error_label) e]))"
  using analyzeImage_answers[OF assms] by (simp add: cleanText_payload)

theorem analyzeImage_parses_payload_witness:
  "answers (Some (answering tab_fenced_text)) [] tab_fenced_text \<and>
   payload tab_fenced_text = cat_text \<and>
   analyzeImage (Some (answering tab_fenced_text)) [] = (Inr cat_result, [])"
proof -
  have a: "answers (Some (answering tab_fenced_text)) [] tab_fenced_text"
    by (rule answers_answering)
  have p: "payload tab_fenced_text = cat_text"
    using tab_clean by (simp add: cleanText_payload)
  have "JSON_parse cat_text = Some cat_result" by code_simp
  with analyzeImage_parses_payload[OF a] p show ?thesis
    using a by (simp add: validate_cat)
qed

text \<open>
  C2 (as stated) fails: the text between the delimiters of this response starts with a
  vertical tab, so it is not JSON, and parsing exactly the contents of the block would
  be a syntax error; \<open>analyzeImage\<close> succeeds, because it parses the contents without
  that white space.
\<close>

theorem analyzeImage_fence_counterexample:
  "fenced_body tab_fenced_text = Some (0xB # cat_text) \<and>
   cleanText tab_fenced_text \<noteq> 0xB # cat_text \<and>
   JSON_parse (0xB # cat_text) = None \<and>
   analyzeImage (Some (answering tab_fenced_text)) [] = (Inr cat_result, [])"
proof -
  have "analyzeImage (Some (answering tab_fenced_text)) [] = (Inr cat_result, [])"
  proof -
    have "JSON_parse (cleanText tab_fenced_text) = Some cat_result"
      unfolding tab_clean by code_simp
    then show ?thesis
      using analyzeImage_answers[OF answers_answering, of tab_fenced_text "[]"]
      by (simp add: validate_cat)
  qed
  then show ?thesis by (simp add: tab_fenced tab_clean tab_parse)
qed

lemma analyzeImage_unavailable:
  "unavailable ai \<Longrightarrow> analyzeImage ai b = getMockAIResponse"
  by (auto simp: unavailable_def analyzeImage_def split: option.splits)

lemma analyzeImage_available_calls:
  assumes "\<not> unavailable ai"
  shows "snd (analyzeImage ai b) = [] \<or> (\<exists>e. snd (analyzeImage ai b) = [ConsoleError (Some analyze_error_label) e])"
  using assms
  by (auto simp: unavailable_def analyzeImage_def split: option.splits sum.splits)

text \<open>
  C7. When the capability is absent or reports that it is not available,
  \<open>analyzeImage\<close> settles, whatever the image payload, with the fixed mock result: it
  does not fail, it warns on the console with the advisory of the fallback, and the result
  comes from a timer of 1200 milliseconds. On the production path that advisory is never
  printed.
\<close>

theorem analyzeImage_mock_fallback:
  "(unavailable ai \<longrightarrow>
      analyzeImage ai base64ImageData =
        (Inr mock_result, [ConsoleWarn mock_advisory, SetTimeout 1200])) \<and>
   (\<not> unavailable ai \<longrightarrow>
      ConsoleWarn mock_advisory \<notin> set (snd (analyzeImage ai base64ImageData)))"
proof (intro conjI impI)
  assume "unavailable ai"
  then show "analyzeImage ai base64ImageData =
      (Inr mock_result, [ConsoleWarn mock_advisory, SetTimeout 1200])"
    by (simp add: analyzeImage_unavailable getMockAIResponse_def)
next
  assume "\<not> unavailable ai"
  from analyzeImage_available_calls[OF this, of base64ImageData]
  show "ConsoleWarn mock_advisory \<notin> set (snd (analyzeImage ai base64ImageData))"
    by auto
qed

theorem analyzeImage_mock_fallback_witness:
  "unavailable None \<and> unavailable (Some refusing_ai) \<and>
   analyzeImage None cat_text = (Inr mock_result, [ConsoleWarn mock_advisory, SetTimeout 1200]) \<and>
   analyzeImage (Some refusing_ai) cat_text =
     (Inr mock_result, [ConsoleWarn mock_advisory, SetTimeout 1200]) \<and>
   \<not> unavailable (Some echo_ai) \<and>
   ConsoleWarn mock_advisory \<notin> set (snd (analyzeImage (Some echo_ai) cat_text))"
proof -
  have u: "unavailable None" "unavailable (Some refusing_ai)"
    by (simp_all add: unavailable_def refusing_ai_def)
  have a: "\<not> unavailable (Some echo_ai)"
    by (simp add: unavailable_def echo_ai_def utf16_def)
  from u a analyzeImage_mock_fallback[of None cat_text]
    analyzeImage_mock_fallback[of "Some refusing_ai" cat_text]
    analyzeImage_mock_fallback[of "Some echo_ai" cat_text]
  show ?thesis by simp
qed

lemma messages_differ:
  "not_understood_message \<noteq> unknown_error_message"
  "not_understood_message \<noteq> invalid_format_message"
  by (simp_all add: not_understood_message_def unknown_error_message_def
      invalid_format_message_def utf16_def)

text \<open>
  C4. When the capability answers with a text whose payload is not JSON, \<open>analyzeImage\<close>
  fails with a plain Error that carries the message of a response that could not be
  understood; that message is neither the message for an unknown error nor the one for
  an invalid format, and it is the error that the state machine stores.
\<close>

theorem analyzeImage_not_understood:
  assumes "answers ai b t" and "JSON_parse (cleanText t) = None"
  shows "fst (analyzeImage ai b) = Inl (ErrorObject ErrorClass not_understood_message) \<and>
     not_understood_message \<noteq> unknown_error_message \<and>
     not_understood_message \<noteq> invalid_format_message \<and>
     written_by (fst (analyzeImage ai b)) (processAnalysis_settle (fst (analyzeImage ai b)) w) \<and>
     error (processAnalysis_settle (fst (analyzeImage ai b)) w) = Some not_understood_message"
proof -
  from analyzeImage_answers[OF assms(1)] assms(2)
  have "fst (analyzeImage ai b) = Inl (ErrorObject ErrorClass not_understood_message)"
    by (simp add: JSON_SyntaxError_def)
  then show ?thesis
    by (simp add: messages_differ setStatus_def setError_def call_def)
qed

theorem analyzeImage_not_understood_witness:
  "answers (Some (answering (utf16 ''not json''))) [] (utf16 ''not json'') \<and>
   JSON_parse (cleanText (utf16 ''not json'')) = None \<and>
   fst (analyzeImage (Some (answering (utf16 ''not json''))) []) =
     Inl (ErrorObject ErrorClass not_understood_message) \<and>
   error (processAnalysis_settle (fst (analyzeImage (Some (answering (utf16 ''not json''))) []))
     init_world) = Some not_understood_message"
proof -
  note h = analyzeImage_not_understood[OF answers_answering parse_not_json, of "[]" init_world]
  from h have 1: "fst (analyzeImage (Some (answering (utf16 ''not json''))) []) =
      Inl (ErrorObject ErrorClass not_understood_message)"
    by (rule conjunct1)
  from h have 2: "error (processAnalysis_settle
      (fst (analyzeImage (Some (answering (utf16 ''not json''))) [])) init_world) =
      Some not_understood_message"
    by blast
  from answers_answering[of "utf16 ''not json''" "[]"] parse_not_json 1 2
  show ?thesis by blast
qed

text \<open>
  C3 fails at the response \<open>null\<close>: it parses as JSON, the decoded value has no
  description, and \<open>analyzeImage\<close> fails with the TypeError of reading a property of
  \<open>null\<close>, not with the Error of an invalid response format.
\<close>

theorem analyzeImage_null_response:
  "JSON_parse (cleanText (utf16 ''null'')) = Some JNull \<and>
   analyzeImage (Some (answering (utf16 ''null''))) [] =
     (Inl (ErrorObject TypeErrorClass (null_read_message (utf16 ''description''))),
      [ConsoleError (Some analyze_error_label)
         (ErrorObject TypeErrorClass (null_read_message (utf16 ''description'')))]) \<and>
   fst (analyzeImage (Some (answering (utf16 ''null''))) []) \<noteq>
     Inl (ErrorObject ErrorClass invalid_format_message)"
  using analyzeImage_answers[OF answers_answering, of "utf16 ''null''" "[]"]
  by (simp add: parse_null validate_JNull)

text \<open>
  For every decoded value other than \<open>null\<close>, the validation does fail with the Error
  of an invalid response format when the description is missing or falsy, or the keywords
  are not an array.
\<close>

lemma validate_invalid:
  assumes "v \<noteq> JNull"
    and "get_prop v (utf16 ''description'') = Inr d"
    and "get_prop v (utf16 ''keywords'') = Inr k"
    and "\<not> truthy d \<or> \<not> isArray k"
  shows "validate v = Inl (ErrorObject ErrorClass invalid_format_message)"
  using assms by (auto simp: validate_def)

lemma analyzeImage_Inr_validate:
  assumes "fst (analyzeImage ai b) = Inr v"
  shows "validate v = Inr v"
proof (cases "unavailable ai")
  case True
  with assms have "v = mock_result"
    by (simp add: analyzeImage_unavailable getMockAIResponse_def)
  then show ?thesis by (simp add: mock_ok)
next
  case False
  with assms obtain r where "validate r = Inr v"
    by (auto simp: unavailable_def analyzeImage_def try_block_def
        split: option.splits sum.splits if_splits)
  with validate_Inr[OF this] show ?thesis by simp
qed

text \<open>
  C9 (as stated) fails: a response with an empty array of keywords is accepted.
\<close>

theorem analyzeImage_empty_keywords_counterexample:
  "analyzeImage (Some (answering no_keywords_text)) [] = (Inr no_keywords_result, []) \<and>
   get_prop no_keywords_result (utf16 ''keywords'') = Inr (Some (JArr []))"
proof -
  have "get_prop no_keywords_result (utf16 ''keywords'') = Inr (Some (JArr []))"
    by code_simp
  then show ?thesis
    using analyzeImage_answers[OF answers_answering, of no_keywords_text "[]"]
    by (simp add: parse_no_keywords validate_no_keywords)
qed

text \<open>
  C9 (as amended). Every value that a successful interpretation returns is an object
  with a truthy description and an array of keywords; the array may be empty.
\<close>

theorem analyzeImage_result_shape:
  assumes "fst (analyzeImage ai b) = Inr v"
  shows "\<exists>kvs. v = JObj kvs \<and> truthy (map_of (rev kvs) (utf16 ''description'')) \<and>
           isArray (map_of (rev kvs) (utf16 ''keywords''))"
  using validate_Inr[OF analyzeImage_Inr_validate[OF assms]] by simp

theorem analyzeImage_result_shape_witness:
  "fst (analyzeImage (Some (answering no_keywords_text)) []) = Inr no_keywords_result \<and>
   (\<exists>kvs. no_keywords_result = JObj kvs \<and>
      truthy (map_of (rev kvs) (utf16 ''description'')) \<and>
      isArray (map_of (rev kvs) (utf16 ''keywords'')))"
proof -
  have r: "fst (analyzeImage (Some (answering no_keywords_text)) []) = Inr no_keywords_result"
    using analyzeImage_answers[OF answers_answering, of no_keywords_text "[]"]
    by (simp add: parse_no_keywords validate_no_keywords)
  from analyzeImage_result_shape[OF r] r show ?thesis by simp
qed

section \<open>The state machine and the capture view\<close>

lemma resetState_fields:
  "status (snd (resetState p f w)) = Idle"
  "result (snd (resetState p f w)) = None"
  "error (snd (resetState p f w)) = None"
  "pending (snd (resetState p f w)) = pending w"
  "isCameraOpen (snd (resetState p f w)) = isCameraOpen w"
  by (simp_all add: resetState_def Let_def setError_def setResult_def setStatus_def
      setImagePreviewUrl_def call_def split: option.splits)

lemma resetState_thrown:
  "fst (resetState p f w) = (if speechSynthesis p then None else Some speech_TypeError)"
  by (simp add: resetState_def Let_def)

text \<open>
  C6. From every state, \<open>resetState(true)\<close> leaves result and error \<open>null\<close>, the
  status idle and the preview reference \<open>null\<close>. Its calls are, in this order: the
  release of the preview reference when that is an object URL, the four setters (the
  preview reference first), and the cancelling of the speech output where the browser has
  a speech synthesis, in which case it ends without an exception.
\<close>

theorem resetState_full:
  "result (snd (resetState p True w)) = None \<and>
   error (snd (resetState p True w)) = None \<and>
   status (snd (resetState p True w)) = Idle \<and>
   imagePreviewUrl (snd (resetState p True w)) = None \<and>
   calls (snd (resetState p True w)) =
     calls w @ release_calls w @
     [SetImagePreviewUrl None, SetStatus Idle, SetResult None, SetError None] @
     (if speechSynthesis p then [SpeechCancel] else []) \<and>
   (speechSynthesis p \<longrightarrow> fst (resetState p True w) = None)"
  by (simp add: resetState_def Let_def setError_def setResult_def setStatus_def
      setImagePreviewUrl_def call_def release_calls_def holds_blob_def split: option.splits)

theorem resetState_full_witness:
  "speechSynthesis chrome \<and>
   fst (resetState chrome True blob_world) = None \<and>
   status (snd (resetState chrome True blob_world)) = Idle \<and>
   result (snd (resetState chrome True blob_world)) = None \<and>
   imagePreviewUrl (snd (resetState chrome True blob_world)) = None \<and>
   calls (snd (resetState chrome True blob_world)) =
     [RevokeObjectURL (utf16 ''blob:1''), SetImagePreviewUrl None, SetStatus Idle,
      SetResult None, SetError None, SpeechCancel]"
proof -
  have s: "speechSynthesis chrome" by (simp add: chrome_def)
  have r: "release_calls blob_world = [RevokeObjectURL (utf16 ''blob:1'')]"
    by (simp add: release_calls_def holds_blob_def blob_world_def utf16_def)
  have c: "calls blob_world = []" by (simp add: blob_world_def)
  from resetState_full[of chrome blob_world] s r c show ?thesis by simp
qed

text \<open>
  C10. In a browser without speech synthesis, \<open>resetState\<close> throws a TypeError, for a
  full reset and for the reset at the start of \<open>processAnalysis\<close>, which therefore
  ends before it sets the status to processing and starts no interpretation;
  \<open>speak\<close> in the same browser warns on the console and returns.
\<close>

theorem resetState_throws_without_speech:
  assumes "\<not> speechSynthesis p"
  shows "fst (resetState p fullReset w) = Some speech_TypeError \<and>
     fst (processAnalysis_start p b u w) = Some speech_TypeError \<and>
     status (snd (processAnalysis_start p b u w)) = Idle \<and>
     pending (snd (processAnalysis_start p b u w)) = pending w \<and>
     speak p txt lng w = (None, call (ConsoleWarn speech_advisory) w)"
proof -
  from assms have t: "fst (resetState p fullReset w) = Some speech_TypeError"
    by (simp add: resetState_thrown)
  from assms have "fst (resetState p False w) = Some speech_TypeError"
    by (simp add: resetState_thrown)
  then have "processAnalysis_start p b u w = (Some speech_TypeError, snd (resetState p False w))"
    by (cases "resetState p False w") (simp add: processAnalysis_start_def)
  with t assms show ?thesis by (simp add: resetState_fields speak_def)
qed

theorem resetState_throws_without_speech_witness:
  "\<not> speechSynthesis silent_browser \<and>
   fst (resetState silent_browser True blob_world) = Some speech_TypeError \<and>
   fst (processAnalysis_start silent_browser cat_text (utf16 ''blob:2'') blob_world) =
     Some speech_TypeError \<and>
   status (snd (processAnalysis_start silent_browser cat_text (utf16 ''blob:2'') blob_world)) = Idle \<and>
   fst (speak silent_browser (utf16 ''cat'') (utf16 ''en-US'') blob_world) = None"
proof -
  have s: "\<not> speechSynthesis silent_browser" by (simp add: silent_browser_def)
  from resetState_throws_without_speech[OF s, of True blob_world cat_text "utf16 ''blob:2''"
      "utf16 ''cat''" "utf16 ''en-US''"] s
  show ?thesis by simp
qed

lemma analyzeImage_echo_cat: "analyzeImage (window_ai chrome) cat_text = (Inr cat_result, [])"
  using analyzeImage_answers[OF answers_echo, of cat_text]
  by (simp add: chrome_def parse_cat validate_cat)

lemma analyzeImage_echo_dog: "analyzeImage (window_ai chrome) dog_text = (Inr dog_result, [])"
  using analyzeImage_answers[OF answers_echo, of dog_text]
  by (simp add: chrome_def parse_dog validate_dog)

lemma analyzeImage_echo_bad:
  "analyzeImage (window_ai chrome) (utf16 ''not json'') =
     (Inl (ErrorObject ErrorClass not_understood_message),
      [ConsoleError (Some analyze_error_label) JSON_SyntaxError])"
  using analyzeImage_answers[OF answers_echo, of "utf16 ''not json''"]
  by (simp add: chrome_def parse_not_json JSON_SyntaxError_def)

lemma start_with_speech:
  assumes "speechSynthesis p"
  shows "processAnalysis_start p b u w =
     (None, (setStatus Processing (setImagePreviewUrl (Some u) (snd (resetState p False w))))
              \<lparr>pending := pending (snd (resetState p False w)) @ [b]\<rparr>)"
proof -
  from assms have "fst (resetState p False w) = None" by (simp add: resetState_thrown)
  then show ?thesis
    by (cases "resetState p False w") (simp add: processAnalysis_start_def)
qed

lemma start_fields:
  assumes "speechSynthesis p"
  shows "status (snd (processAnalysis_start p b u w)) = Processing"
    "result (snd (processAnalysis_start p b u w)) = None"
    "error (snd (processAnalysis_start p b u w)) = None"
    "pending (snd (processAnalysis_start p b u w)) = pending w @ [b]"
  using resetState_fields[of p False w]
  by (simp_all add: start_with_speech[OF assms] setStatus_def setImagePreviewUrl_def call_def)

lemma start_fields_silent:
  assumes "\<not> speechSynthesis p"
  shows "status (snd (processAnalysis_start p b u w)) = Idle"
    "result (snd (processAnalysis_start p b u w)) = None"
    "error (snd (processAnalysis_start p b u w)) = None"
    "pending (snd (processAnalysis_start p b u w)) = pending w"
proof -
  from assms have "fst (resetState p False w) = Some speech_TypeError"
    by (simp add: resetState_thrown)
  then have "processAnalysis_start p b u w = (Some speech_TypeError, snd (resetState p False w))"
    by (cases "resetState p False w") (simp add: processAnalysis_start_def)
  then show "status (snd (processAnalysis_start p b u w)) = Idle"
    "result (snd (processAnalysis_start p b u w)) = None"
    "error (snd (processAnalysis_start p b u w)) = None"
    "pending (snd (processAnalysis_start p b u w)) = pending w"
    by (simp_all add: resetState_fields)
qed

lemma settle_written: "written_by outcome (processAnalysis_settle outcome w)"
  by (cases outcome) (simp_all add: setStatus_def setResult_def setError_def call_def)

lemma settle_fields:
  "pending (processAnalysis_settle outcome w) = pending w"
  "isCameraOpen (processAnalysis_settle outcome w) = isCameraOpen w"
  by (cases outcome; simp add: setStatus_def setResult_def setError_def call_def)+

lemma step_Settle:
  assumes "b \<in> set (pending (analyzer a))"
  shows "\<exists>a'. step p (Settle b) a = Some a' \<and>
     written_by (fst (analyzeImage (window_ai p) b)) (analyzer a') \<and>
     pending (analyzer a') = remove1 b (pending (analyzer a))"
  using assms settle_written[of "fst (analyzeImage (window_ai p) b)"]
  by (cases "analyzeImage (window_ai p) b") (simp add: Let_def settle_fields)

lemma step_Submit:
  assumes "speechSynthesis p"
  shows "\<exists>a'. step p (Submit b u) a = Some a' \<and>
     pending (analyzer a') = pending (analyzer a) @ [b]"
  using start_fields(4)[OF assms] by simp

text \<open>
  C1 (as amended). When \<open>processAnalysis\<close> is called twice and the two interpretations
  then settle, in either order, both completions are applied, and the final status, with
  the result or the error that goes with it, is the one written by the completion that
  comes last, be it the one of the first call or of the second.
\<close>

theorem last_completion_wins:
  assumes "speechSynthesis p"
    and "(l1 = x \<and> l2 = y) \<or> (l1 = y \<and> l2 = x)"
  shows "\<exists>a'. run p [Submit x ux, Submit y uy, Settle l1, Settle l2] a = Some a' \<and>
     written_by (fst (analyzeImage (window_ai p) l2)) (analyzer a')"
proof -
  from step_Submit[OF assms(1)] obtain a1 where
    1: "step p (Submit x ux) a = Some a1" and p1: "pending (analyzer a1) = pending (analyzer a) @ [x]"
    by blast
  from step_Submit[OF assms(1)] obtain a2 where
    2: "step p (Submit y uy) a1 = Some a2" and p2: "pending (analyzer a2) = pending (analyzer a1) @ [y]"
    by blast
  from p1 p2 have p: "pending (analyzer a2) = pending (analyzer a) @ [x, y]" by simp
  from assms(2) p have "l1 \<in> set (pending (analyzer a2))" by auto
  from step_Settle[OF this] obtain a3 where
    3: "step p (Settle l1) a2 = Some a3" and p3: "pending (analyzer a3) = remove1 l1 (pending (analyzer a2))"
    by blast
  have "l2 \<in> set (pending (analyzer a3))"
    unfolding p3 p using assms(2) by (auto simp: remove1_append)
  from step_Settle[OF this] obtain a4 where
    4: "step p (Settle l2) a3 = Some a4"
    and w: "written_by (fst (analyzeImage (window_ai p) l2)) (analyzer a4)"
    by blast
  from 1 2 3 4 have "run p [Submit x ux, Submit y uy, Settle l1, Settle l2] a = Some a4"
    by simp
  with w show ?thesis by blast
qed

lemma chrome_speech: "speechSynthesis chrome"
  by (simp add: chrome_def)

lemma texts_differ:
  "cat_text \<noteq> dog_text" "dog_text \<noteq> cat_text"
  "utf16 ''not json'' \<noteq> cat_text" "cat_text \<noteq> utf16 ''not json''"
  by (simp_all add: cat_text_def dog_text_def utf16_def)

lemmas run_unfold =
  init_app_def init_world_def processAnalysis_start_def resetState_def Let_def
  setStatus_def setResult_def setError_def setImagePreviewUrl_def setIsCameraOpen_def call_def
  chrome_speech texts_differ

text \<open>
  C1 (as stated) fails: the first call is for the dog, the second for the cat; the
  interpretation of the second settles first, then the one of the first, and the final
  state holds the result of the first call.
\<close>

theorem superseded_completion_counterexample:
  "observe (run chrome
     [Submit dog_text (utf16 ''blob:1''), Submit cat_text (utf16 ''blob:2''),
      Settle cat_text, Settle dog_text] init_app) =
   Some (Success, Some dog_result, None)"
  by (simp add: run_unfold analyzeImage_echo_cat analyzeImage_echo_dog)

theorem last_completion_wins_witness:
  "speechSynthesis chrome \<and>
   (\<exists>a'. run chrome
      [Submit dog_text (utf16 ''blob:1''), Submit cat_text (utf16 ''blob:2''),
       Settle cat_text, Settle dog_text] init_app = Some a' \<and>
      status (analyzer a') = Success \<and> result (analyzer a') = Some dog_result)"
proof -
  have "(cat_text = dog_text \<and> dog_text = cat_text) \<or> (cat_text = cat_text \<and> dog_text = dog_text)"
    by simp
  from last_completion_wins[OF chrome_speech this, of "utf16 ''blob:1''" "utf16 ''blob:2''" init_app]
  show ?thesis by (simp add: chrome_speech analyzeImage_echo_dog)
qed

text \<open>
  C5 (as stated) fails, even with the completions in the order of the calls: the first
  interpretation fails, the second succeeds, and the final state has the status success
  together with the error of the first call.
\<close>

theorem invariant_counterexample:
  "observe (run chrome
     [Submit (utf16 ''not json'') (utf16 ''blob:1''), Submit cat_text (utf16 ''blob:2''),
      Settle (utf16 ''not json''), Settle cat_text] init_app) =
   Some (Success, Some cat_result, Some not_understood_message) \<and>
   violates_invariant (run chrome
     [Submit (utf16 ''not json'') (utf16 ''blob:1''), Submit cat_text (utf16 ''blob:2''),
      Settle (utf16 ''not json''), Settle cat_text] init_app)"
  by (simp add: run_unfold analyzeImage_echo_cat analyzeImage_echo_bad state_invariant_def)

lemma analyzeImage_Inr_non_null:
  assumes "fst (analyzeImage ai b) = Inr v"
  shows "non_null (Some v)"
proof -
  from validate_Inr[OF analyzeImage_Inr_validate[OF assms]] obtain kvs where "v = JObj kvs"
    by blast
  then show ?thesis by simp
qed

lemma settle_success_fields:
  "status (processAnalysis_settle (Inr r) w) = Success"
  "result (processAnalysis_settle (Inr r) w) = Some r"
  "error (processAnalysis_settle (Inr r) w) = error w"
  by (simp_all add: setStatus_def setResult_def call_def)

lemma settle_failure_fields:
  "status (processAnalysis_settle (Inl e) w) = Error"
  "result (processAnalysis_settle (Inl e) w) = result w"
  "error (processAnalysis_settle (Inl e) w) = Some (errorMessage e)"
  by (simp_all add: setStatus_def setError_def call_def)

lemma setIsCameraOpen_fields:
  "status (setIsCameraOpen v w) = status w"
  "result (setIsCameraOpen v w) = result w"
  "error (setIsCameraOpen v w) = error w"
  "pending (setIsCameraOpen v w) = pending w"
  by (simp_all add: setIsCameraOpen_def call_def)

lemma render_camera_analyzer: "analyzer (render_camera p a) = analyzer a"
  by (simp add: render_camera_def)

lemma quiet_start:
  assumes "pending w = []"
  shows "quiet (snd (processAnalysis_start p b u w))"
proof (cases "speechSynthesis p")
  case True
  from start_fields[OF True, of b u w] assms show ?thesis
    by (simp add: quiet_def state_invariant_def)
next
  case False
  from start_fields_silent[OF False, of b u w] assms show ?thesis
    by (simp add: quiet_def state_invariant_def)
qed

lemma quiet_settle:
  assumes "quiet w" and "b \<in> set (pending w)"
  shows "quiet (processAnalysis_settle (fst (analyzeImage ai b))
           (w\<lparr>pending := remove1 b (pending w), calls := calls w @ effects\<rparr>))"
proof -
  from assms have p: "pending w = [b]"
    by (cases "pending w") (auto simp: quiet_def)
  with assms(1) have f: "status w = Processing" "result w = None" "error w = None"
    by (simp_all add: quiet_def)
  show ?thesis
  proof (cases "fst (analyzeImage ai b)")
    case (Inl e)
    with p f show ?thesis
      by (simp add: quiet_def state_invariant_def setStatus_def setError_def call_def)
  next
    case (Inr r)
    from analyzeImage_Inr_non_null[OF Inr] Inr p f show ?thesis
      by (simp add: quiet_def state_invariant_def setStatus_def setResult_def call_def)
  qed
qed

lemma quiet_reset:
  assumes "quiet w" and "status w = Error \<or> status w = Success"
  shows "quiet (snd (resetState p f w))"
proof -
  from assms have "pending w = []" by (auto simp: quiet_def)
  then show ?thesis by (simp add: quiet_def state_invariant_def resetState_fields)
qed

lemma quiet_setIsCameraOpen: "quiet w \<Longrightarrow> quiet (setIsCameraOpen v w)"
  by (simp add: quiet_def state_invariant_def setIsCameraOpen_fields)

lemma step_quiet:
  assumes "quiet (analyzer a)"
    and "starts_analysis e \<longrightarrow> pending (analyzer a) = []"
    and "step p e a = Some a'"
  shows "quiet (analyzer a')"
proof (cases e)
  case (Submit b u)
  with assms show ?thesis by (auto simp: quiet_start)
next
  case (Settle b)
  with assms(3) have m: "b \<in> set (pending (analyzer a))"
    by (simp add: Let_def split: if_splits)
  from quiet_settle[OF assms(1) m, of "window_ai p" "snd (analyzeImage (window_ai p) b)"]
  show ?thesis using assms(3) Settle m
    by (cases "analyzeImage (window_ai p) b") (auto simp: Let_def)
next
  case ResetButton
  with assms(3) have "status (analyzer a) = Error \<or> status (analyzer a) = Success"
    by (auto simp: Let_def split: if_splits)
  from quiet_reset[OF assms(1) this, of p True] assms(3) ResetButton show ?thesis
    by (auto simp: Let_def split: if_splits)
next
  case CameraButton
  with assms(1,3) show ?thesis
    by (auto simp: render_camera_analyzer quiet_setIsCameraOpen split: if_splits)
next
  case CloseCamera
  with assms(1,3) show ?thesis
    by (auto simp: render_camera_analyzer quiet_setIsCameraOpen split: if_splits)
next
  case (StreamResolved s)
  with assms(1,3) show ?thesis by (auto split: if_splits)
next
  case (StreamRejected f)
  with assms(1,3) show ?thesis by (auto split: if_splits)
next
  case MetadataLoaded
  with assms(1,3) show ?thesis by (auto split: if_splits)
next
  case (Snap d)
  with assms show ?thesis
    by (auto simp: render_camera_analyzer quiet_setIsCameraOpen quiet_start split: if_splits)
qed

lemma run_quiet:
  assumes "quiet (analyzer a)" and "overlap_free p es a" and "run p es a = Some a'"
  shows "quiet (analyzer a')"
  using assms
proof (induction es arbitrary: a)
  case Nil
  then show ?case by simp
next
  case (Cons e es)
  from Cons.prems(3) obtain a1 where s: "step p e a = Some a1" and r: "run p es a1 = Some a'"
    by (auto split: option.splits)
  from Cons.prems(2) s have o: "overlap_free p es a1"
    and g: "starts_analysis e \<longrightarrow> pending (analyzer a) = []"
    by simp_all
  from step_quiet[OF Cons.prems(1) g s] have "quiet (analyzer a1)" .
  from Cons.IH[OF this o r] show ?case .
qed

lemma quiet_init: "quiet (analyzer init_app)"
  by (simp add: quiet_def state_invariant_def init_app_def init_world_def)

lemma one_way_start: "one_way_invariant (snd (processAnalysis_start p b u w))"
proof (cases "speechSynthesis p")
  case True
  from start_fields[OF True, of b u w] show ?thesis by (simp add: one_way_invariant_def)
next
  case False
  from start_fields_silent[OF False, of b u w] show ?thesis by (simp add: one_way_invariant_def)
qed

lemma one_way_settle:
  "one_way_invariant (processAnalysis_settle (fst (analyzeImage ai b)) w)"
proof (cases "fst (analyzeImage ai b)")
  case (Inl e)
  then show ?thesis
    by (simp add: one_way_invariant_def setStatus_def setError_def call_def)
next
  case (Inr r)
  from analyzeImage_Inr_non_null[OF Inr] Inr show ?thesis
    by (simp add: one_way_invariant_def setStatus_def setResult_def call_def)
qed

lemma one_way_reset: "one_way_invariant (snd (resetState p f w))"
  by (simp add: one_way_invariant_def resetState_fields)

lemma one_way_setIsCameraOpen: "one_way_invariant w \<Longrightarrow> one_way_invariant (setIsCameraOpen v w)"
  by (simp add: one_way_invariant_def setIsCameraOpen_fields)

lemma step_one_way:
  assumes "one_way_invariant (analyzer a)" and "step p e a = Some a'"
  shows "one_way_invariant (analyzer a')"
proof (cases e)
  case (Submit b u)
  with assms(2) show ?thesis by (auto simp: one_way_start)
next
  case (Settle b)
  from one_way_settle[of "window_ai p" b] assms(2) Settle show ?thesis
    by (cases "analyzeImage (window_ai p) b") (auto simp: Let_def split: if_splits)
next
  case ResetButton
  with assms(2) show ?thesis by (auto simp: Let_def one_way_reset split: if_splits)
next
  case CameraButton
  with assms show ?thesis
    by (auto simp: render_camera_analyzer one_way_setIsCameraOpen split: if_splits)
next
  case CloseCamera
  with assms show ?thesis
    by (auto simp: render_camera_analyzer one_way_setIsCameraOpen split: if_splits)
next
  case (StreamResolved s)
  with assms show ?thesis by (auto split: if_splits)
next
  case (StreamRejected f)
  with assms show ?thesis by (auto split: if_splits)
next
  case MetadataLoaded
  with assms show ?thesis by (auto split: if_splits)
next
  case (Snap d)
  with assms(2) show ?thesis
    by (auto simp: render_camera_analyzer one_way_setIsCameraOpen one_way_start split: if_splits)
qed

lemma run_one_way:
  assumes "one_way_invariant (analyzer a)" and "run p es a = Some a'"
  shows "one_way_invariant (analyzer a')"
  using assms
proof (induction es arbitrary: a)
  case Nil
  then show ?case by simp
next
  case (Cons e es)
  from Cons.prems(2) obtain a1 where s: "step p e a = Some a1" and r: "run p es a1 = Some a'"
    by (auto split: option.splits)
  from step_one_way[OF Cons.prems(1) s] have "one_way_invariant (analyzer a1)" .
  from Cons.IH[OF this r] show ?case .
qed

lemma one_way_init: "one_way_invariant (analyzer init_app)"
  by (simp add: one_way_invariant_def init_app_def init_world_def)

text \<open>
  C5 (as amended). In every state that the application reaches from its initial state,
  by whatever transitions and with the completions of overlapping calls in any order:
  when the status is success there is a result, when the status is error there is an
  error, and when the status is idle or processing there is neither. When moreover no call
  of \<open>processAnalysis\<close> has started while another one waited for its interpretation,
  the invariant holds in full: there is a result exactly when the status is success and an
  error exactly when the status is error.
\<close>

theorem invariant_reachable:
  assumes "run p es init_app \<noteq> None"
  shows "satisfies_one_way (run p es init_app) \<and>
     (overlap_free p es init_app \<longrightarrow> satisfies_invariant (run p es init_app))"
proof -
  from assms obtain a where r: "run p es init_app = Some a" by blast
  from run_one_way[OF one_way_init r] have 1: "one_way_invariant (analyzer a)" .
  have 2: "state_invariant (analyzer a)" if "overlap_free p es init_app"
    using run_quiet[OF quiet_init that r] by (simp add: quiet_def)
  from 1 2 r show ?thesis by simp
qed

theorem invariant_reachable_witness:
  "observe (run chrome
     [Submit (utf16 ''not json'') (utf16 ''blob:1''), Submit cat_text (utf16 ''blob:2''),
      Settle cat_text, Settle (utf16 ''not json'')] init_app) =
     Some (Error, Some cat_result, Some not_understood_message) \<and>
   satisfies_one_way (run chrome
     [Submit (utf16 ''not json'') (utf16 ''blob:1''), Submit cat_text (utf16 ''blob:2''),
      Settle cat_text, Settle (utf16 ''not json'')] init_app) \<and>
   overlap_free chrome
     [Submit cat_text (utf16 ''blob:1''), Settle cat_text, ResetButton,
      Submit (utf16 ''not json'') (utf16 ''blob:2''), Settle (utf16 ''not json'')] init_app \<and>
   observe (run chrome
     [Submit cat_text (utf16 ''blob:1''), Settle cat_text, ResetButton,
      Submit (utf16 ''not json'') (utf16 ''blob:2''), Settle (utf16 ''not json'')] init_app) =
     Some (Error, None, Some not_understood_message) \<and>
   satisfies_invariant (run chrome
     [Submit cat_text (utf16 ''blob:1''), Settle cat_text, ResetButton,
      Submit (utf16 ''not json'') (utf16 ''blob:2''), Settle (utf16 ''not json'')] init_app)"
proof -
  let ?ov = "[Submit (utf16 ''not json'') (utf16 ''blob:1''), Submit cat_text (utf16 ''blob:2''),
      Settle cat_text, Settle (utf16 ''not json'')]"
  let ?es = "[Submit cat_text (utf16 ''blob:1''), Settle cat_text, ResetButton,
      Submit (utf16 ''not json'') (utf16 ''blob:2''), Settle (utf16 ''not json'')]"
  have v: "observe (run chrome ?ov init_app) =
      Some (Error, Some cat_result, Some not_understood_message)"
    by (simp add: run_unfold analyzeImage_echo_cat analyzeImage_echo_bad)
  then have nv: "run chrome ?ov init_app \<noteq> None" by (cases "run chrome ?ov init_app") simp_all
  have o: "overlap_free chrome ?es init_app"
    by (simp add: run_unfold analyzeImage_echo_cat analyzeImage_echo_bad cat_result_def)
  have r: "observe (run chrome ?es init_app) = Some (Error, None, Some not_understood_message)"
    by (simp add: run_unfold analyzeImage_echo_cat analyzeImage_echo_bad cat_result_def)
  then have nr: "run chrome ?es init_app \<noteq> None" by (cases "run chrome ?es init_app") simp_all
  from invariant_reachable[OF nv] invariant_reachable[OF nr] v o r show ?thesis by simp
qed

lemma stopCamera_torn_down: "torn_down c (stopCamera c)"
  by (simp add: torn_down_def stopCamera_def split: option.splits)

lemma set_isOpen_torn_down:
  assumes "b \<noteq> isOpen c"
  shows "torn_down c (set_isOpen p b c)" and "isOpen (set_isOpen p b c) = b"
  using assms
  by (auto simp: set_isOpen_def camera_effect_def startCamera_def Let_def torn_down_def
      stopCamera_def split: option.splits)

lemma step_reset_capture:
  "step p ResetButton a = Some a1 \<Longrightarrow> capture a1 = capture a"
  by (auto simp: Let_def split: if_splits)

text \<open>
  C8 (as amended). Whenever the capture view closes (by its close button, or after a
  frame has been captured) or is opened again, the stream that \<open>streamRef\<close> holds at
  that moment is torn down: every track of it is stopped and the reference is cleared,
  whether the acquisition had succeeded or failed. A full state reset leaves the capture
  view and its stream as they are.
\<close>

theorem camera_teardown:
  "(step p CloseCamera a = Some a1 \<longrightarrow>
      torn_down (capture a) (capture a1) \<and> \<not> isOpen (capture a1)) \<and>
   (step p (Snap d) a = Some a1 \<longrightarrow>
      torn_down (capture a) (capture a1) \<and> \<not> isOpen (capture a1)) \<and>
   (step p CameraButton a = Some a1 \<and> \<not> isMobile p \<and> \<not> isOpen (capture a) \<longrightarrow>
      torn_down (capture a) (capture a1) \<and> isOpen (capture a1)) \<and>
   (step p ResetButton a = Some a1 \<longrightarrow> capture a1 = capture a)"
proof (intro conjI impI)
  assume s: "step p CloseCamera a = Some a1"
  then have o: "isOpen (capture a)" by (simp split: if_splits)
  with s have "capture a1 = set_isOpen p False (capture a)"
    by (auto simp: render_camera_def setIsCameraOpen_def call_def)
  with set_isOpen_torn_down[of False "capture a" p] o
  show "torn_down (capture a) (capture a1)" "\<not> isOpen (capture a1)" by simp_all
next
  assume s: "step p (Snap d) a = Some a1"
  then have o: "isOpen (capture a)" by (simp split: if_splits)
  with s have "capture a1 = set_isOpen p False (capture a)"
    by (auto simp: render_camera_def setIsCameraOpen_def call_def split: if_splits)
  with set_isOpen_torn_down[of False "capture a" p] o
  show "torn_down (capture a) (capture a1)" "\<not> isOpen (capture a1)" by simp_all
next
  assume s: "step p CameraButton a = Some a1 \<and> \<not> isMobile p \<and> \<not> isOpen (capture a)"
  then have "capture a1 = set_isOpen p True (capture a)"
    by (auto simp: render_camera_def setIsCameraOpen_def call_def split: if_splits)
  with set_isOpen_torn_down[of True "capture a" p] s
  show "torn_down (capture a) (capture a1)" "isOpen (capture a1)" by simp_all
next
  assume "step p ResetButton a = Some a1"
  then show "capture a1 = capture a" by (rule step_reset_capture)
qed

lemma chrome_media: "mediaDevices chrome"
  by (simp add: chrome_def)

lemma chrome_desktop: "\<not> isMobile chrome"
  by (simp add: chrome_def)

theorem camera_teardown_witness:
  "(\<exists>a1. step chrome CloseCamera filming = Some a1 \<and>
      stopped (capture a1) = [1, 2] \<and> streamRef (capture a1) = None \<and> \<not> isOpen (capture a1)) \<and>
   (\<exists>a1. step chrome (Snap (utf16 ''data:image/jpeg;base64,QUJD'')) filming = Some a1 \<and>
      stopped (capture a1) = [1, 2] \<and> streamRef (capture a1) = None \<and> \<not> isOpen (capture a1)) \<and>
   (\<exists>a1. step chrome CameraButton init_app = Some a1 \<and> \<not> isMobile chrome \<and>
      \<not> isOpen (capture init_app) \<and> streamRef (capture a1) = None \<and> isOpen (capture a1)) \<and>
   (\<exists>a1. step chrome ResetButton failed_filming = Some a1 \<and>
      capture a1 = capture failed_filming \<and> streamRef (capture a1) = Some [1, 2] \<and>
      stopped (capture a1) = [])"
proof (intro conjI)
  define a1 where "a1 = render_camera chrome
     (filming\<lparr>analyzer := setIsCameraOpen False (analyzer filming)\<rparr>)"
  have s: "step chrome CloseCamera filming = Some a1"
    by (simp add: a1_def filming_def)
  from camera_teardown[of chrome filming a1] s
  have "torn_down (capture filming) (capture a1) \<and> \<not> isOpen (capture a1)" by blast
  then have "stopped (capture a1) = [1, 2] \<and> streamRef (capture a1) = None \<and> \<not> isOpen (capture a1)"
    by (simp add: torn_down_def filming_def)
  with s show "\<exists>a1. step chrome CloseCamera filming = Some a1 \<and>
      stopped (capture a1) = [1, 2] \<and> streamRef (capture a1) = None \<and> \<not> isOpen (capture a1)"
    by blast
next
  let ?d = "utf16 ''data:image/jpeg;base64,QUJD''"
  define a1 where "a1 = render_camera chrome
     (filming\<lparr>analyzer := setIsCameraOpen False
        (snd (processAnalysis_start chrome (base64_of_dataUrl ?d) ?d (analyzer filming)))\<rparr>)"
  have s: "step chrome (Snap ?d) filming = Some a1"
    by (simp add: a1_def filming_def)
  from camera_teardown[of chrome filming a1 ?d] s
  have "torn_down (capture filming) (capture a1) \<and> \<not> isOpen (capture a1)" by blast
  then have "stopped (capture a1) = [1, 2] \<and> streamRef (capture a1) = None \<and> \<not> isOpen (capture a1)"
    by (simp add: torn_down_def filming_def)
  with s show "\<exists>a1. step chrome (Snap ?d) filming = Some a1 \<and>
      stopped (capture a1) = [1, 2] \<and> streamRef (capture a1) = None \<and> \<not> isOpen (capture a1)"
    by blast
next
  define a1 where "a1 = render_camera chrome
     (init_app\<lparr>analyzer := setIsCameraOpen True (analyzer init_app)\<rparr>)"
  have s: "step chrome CameraButton init_app = Some a1"
    by (simp add: a1_def init_app_def init_world_def chrome_desktop)
  have c: "\<not> isOpen (capture init_app)" by (simp add: init_app_def init_camera_def)
  from camera_teardown[of chrome init_app a1] s c chrome_desktop
  have "torn_down (capture init_app) (capture a1) \<and> isOpen (capture a1)" by blast
  then have "streamRef (capture a1) = None \<and> isOpen (capture a1)"
    by (simp add: torn_down_def)
  with s c chrome_desktop show "\<exists>a1. step chrome CameraButton init_app = Some a1 \<and>
      \<not> isMobile chrome \<and> \<not> isOpen (capture init_app) \<and> streamRef (capture a1) = None \<and>
      isOpen (capture a1)"
    by blast
next
  define a1 where "a1 = failed_filming
     \<lparr>analyzer := snd (resetState chrome True (analyzer failed_filming))\<rparr>"
  have s: "step chrome ResetButton failed_filming = Some a1"
    by (simp add: a1_def failed_filming_def filming_def)
  from camera_teardown[of chrome failed_filming a1] s
  have "capture a1 = capture failed_filming" by blast
  then have "capture a1 = capture failed_filming \<and> streamRef (capture a1) = Some [1, 2] \<and>
      stopped (capture a1) = []"
    by (simp add: failed_filming_def filming_def)
  with s show "\<exists>a1. step chrome ResetButton failed_filming = Some a1 \<and>
      capture a1 = capture failed_filming \<and> streamRef (capture a1) = Some [1, 2] \<and>
      stopped (capture a1) = []"
    by blast
qed

text \<open>
  C8 (as stated) fails: the view is open and holds a stream of two tracks, an analysis
  started meanwhile fails, and the button of the error state calls \<open>resetState(true)\<close>;
  after this full reset the view is still open with its stream, and no track has been
  stopped.
\<close>

theorem reset_keeps_stream_counterexample:
  "observe (run chrome
     [CameraButton, StreamResolved [1, 2], Submit (utf16 ''not json'') (utf16 ''blob:1''),
      Settle (utf16 ''not json''), ResetButton] init_app) = Some (Idle, None, None) \<and>
   map_option capture (run chrome
     [CameraButton, StreamResolved [1, 2], Submit (utf16 ''not json'') (utf16 ''blob:1''),
      Settle (utf16 ''not json''), ResetButton] init_app) =
   Some \<lparr>isOpen = True, streamRef = Some [1, 2], srcObject = Some [1, 2], cam_error = None,
         isLoading = True, acquiring = 0, stopped = []\<rparr>"
  by (simp add: run_unfold analyzeImage_echo_bad init_camera_def chrome_media chrome_desktop render_camera_def set_isOpen_def camera_effect_def
      startCamera_def stopCamera_def stream_resolved_def)

end
